theory Spec2Isabelle
  imports Main "HOL-Library.Signed_Division"
begin

section \<open>Hex map generation of random.cpp\<close>

text \<open>
  A shallow embedding of the map generator in \<^verbatim>\<open>src/random.cpp\<close>: hex grid
  arithmetic, the hex distance, neighbour lookup, the Voronoi-style region
  partition, the region adjacency list and the greedy terrain colouring.

  Conventions of the embedding.
  \<^item> C++ \<^verbatim>\<open>int\<close> values are HOL integers; \<^verbatim>\<open>/\<close> and \<^verbatim>\<open>%\<close> truncate towards
    zero and are written \<open>sdiv\<close> and \<open>smod\<close>.
  \<^item> \<^verbatim>\<open>Sint16\<close> values are HOL integers too; every store of an \<^verbatim>\<open>int\<close> into a
    \<^verbatim>\<open>Sint16\<close> goes through \<open>s16\<close>, the two's complement wrap-around.
  \<^item> A failed \<^verbatim>\<open>assert\<close> and a read outside a vector are results of their own
    (\<open>Inl AssertionFailed\<close>, \<open>Inl OutOfBounds\<close>).
  \<^item> A counting \<^verbatim>\<open>for\<close> loop is a fold over the list of its counter values.
\<close>

subsection \<open>Integers and failures\<close>

definition s16 :: "int \<Rightarrow> int" where
  "s16 x = (x + 32768) mod 65536 - 32768"

definition sint16_max :: int where
  "sint16_max = 32767"

datatype error = AssertionFailed | OutOfBounds

definition bindE :: "error + 'a \<Rightarrow> ('a \<Rightarrow> error + 'b) \<Rightarrow> error + 'b" where
  "bindE m f = (case m of Inl e \<Rightarrow> Inl e | Inr x \<Rightarrow> f x)"

fun foldE :: "('s \<Rightarrow> 'a \<Rightarrow> error + 's) \<Rightarrow> 'a list \<Rightarrow> 's \<Rightarrow> error + 's" where
  "foldE f [] s = Inr s"
| "foldE f (x # xs) s = (case f s x of Inl e \<Rightarrow> Inl e | Inr s' \<Rightarrow> foldE f xs s')"

subsection \<open>Constants\<close>

type_synonym Point = "int \<times> int"

definition hMapWidth :: int where
  "hMapWidth = 16"

definition hMapHeight :: int where
  "hMapHeight = 9"

definition hMapSize :: int where
  "hMapSize = hMapWidth * hMapHeight"

definition numRegions :: int where
  "numRegions = 18"

definition numTerrains :: int where
  "numTerrains = 6"

definition hInvalid :: Point where
  "hInvalid = (-1, -1)"

subsection \<open>Grid coordinate math\<close>

definition hexFromAry :: "int \<Rightarrow> Point" where
  "hexFromAry aIndex = (s16 (aIndex smod hMapWidth), s16 (aIndex sdiv hMapWidth))"

definition aryFromHex :: "Point \<Rightarrow> int" where
  "aryFromHex hex = snd hex * hMapWidth + fst hex"

text \<open>
  \<^verbatim>\<open>hexRandom\<close> draws one \<^verbatim>\<open>Sint16\<close> from a uniform distribution on
  \<open>0 .. hMapWidth * hMapHeight - 1\<close>; the drawn value is the argument here.
\<close>

definition hexRandom :: "int \<Rightarrow> Point" where
  "hexRandom aRand = hexFromAry aRand"

definition hexDist :: "Point \<Rightarrow> Point \<Rightarrow> int" where
  "hexDist h1 h2 =
     (if h1 = hInvalid \<or> h2 = hInvalid then sint16_max
      else
        let dx = s16 \<bar>fst h1 - fst h2\<bar>;
            dy = s16 \<bar>snd h1 - snd h2\<bar>;
            vPenalty =
              (if (snd h1 < snd h2 \<and> fst h1 smod 2 = 0 \<and> fst h2 smod 2 = 1) \<or>
                  (snd h1 > snd h2 \<and> fst h1 smod 2 = 1 \<and> fst h2 smod 2 = 0)
               then 1 else (0::int))
        in max dx (s16 (dy + vPenalty + dx sdiv 2)))"

text \<open>The cells of the grid, as coordinates.\<close>

definition inBounds :: "Point \<Rightarrow> bool" where
  "inBounds h = (0 \<le> fst h \<and> fst h < hMapWidth \<and> 0 \<le> snd h \<and> snd h < hMapHeight)"

text \<open>
  The neighbour of a tile in a direction (0 = north, 1 = northeast, and so on
  clockwise), \<open>- 1\<close> when there is no tile in that direction. The branches are
  those of the source, in its order; a branch of the source that returns nothing
  falls through to the final \<^verbatim>\<open>return -1\<close>.
\<close>

definition aryGetNeighbor :: "int \<Rightarrow> int \<Rightarrow> error + int" where
  "aryGetNeighbor aIndex dir =
     (if \<not> (dir \<ge> 0 \<and> dir < 6) then Inl AssertionFailed
      else if dir = 0 \<and> aIndex \<ge> hMapWidth then Inr (aIndex - hMapWidth)
      else if dir = 1 \<and> aIndex smod hMapWidth < hMapWidth - 1 then
        (if aIndex smod 2 = 0 then
           (if aIndex \<ge> hMapWidth then Inr (aIndex - hMapWidth + 1) else Inr (- 1))
         else Inr (aIndex + 1))
      else if dir = 2 \<and> aIndex smod hMapWidth < hMapWidth - 1 then
        (if aIndex smod 2 = 0 then Inr (aIndex + 1)
         else
           (if aIndex < hMapSize - hMapWidth then Inr (aIndex + hMapWidth + 1) else Inr (- 1)))
      else if dir = 3 \<and> aIndex < hMapSize - hMapWidth then Inr (aIndex + hMapWidth)
      else if dir = 4 \<and> aIndex smod hMapWidth > 0 then
        (if aIndex smod 2 = 0 then Inr (aIndex - 1)
         else
           (if aIndex < hMapSize - hMapWidth then Inr (aIndex + hMapWidth - 1) else Inr (- 1)))
      else if dir = 5 \<and> aIndex smod hMapWidth > 0 then
        (if aIndex smod 2 = 0 then
           (if aIndex \<ge> hMapWidth then Inr (aIndex - hMapWidth - 1) else Inr (- 1))
         else Inr (aIndex - 1))
      else Inr (- 1))"

text \<open>All neighbours of a tile, in the order of the directions.\<close>

definition aryNeighbors :: "int \<Rightarrow> error + int list" where
  "aryNeighbors aIndex =
     foldE (\<lambda>av dir.
              bindE (aryGetNeighbor aIndex dir)
                (\<lambda>aNeighbor. Inr (if aNeighbor \<noteq> - 1 then av @ [aNeighbor] else av)))
       (map int [0 ..< 6]) []"

text \<open>Row and column of a cell index, for stating where a neighbour lies.\<close>

definition colOf :: "int \<Rightarrow> int" where
  "colOf aIndex = fst (hexFromAry aIndex)"

definition rowOf :: "int \<Rightarrow> int" where
  "rowOf aIndex = snd (hexFromAry aIndex)"

subsection \<open>Region partition\<close>

text \<open>
  \<open>rFindClosest\<close> scans the centers \<open>0, \<dots>, numRegions - 1\<close>; \<open>closerStep\<close> is
  the body of its loop, on the pair \<^verbatim>\<open>(rClosest, bestSoFar)\<close>.
\<close>

definition closerStep ::
  "int \<Rightarrow> int \<Rightarrow> Point list \<Rightarrow> int \<times> int \<Rightarrow> nat \<Rightarrow> error + int \<times> int" where
  "closerStep hx hy hCenters st i =
     (case st of (rClosest, bestSoFar) \<Rightarrow>
        if i < length hCenters then
          (let dist = hexDist (hx, hy) (hCenters ! i)
           in Inr (if dist < bestSoFar then (int i, dist) else (rClosest, bestSoFar)))
        else Inl OutOfBounds)"

definition rFindClosest :: "int \<Rightarrow> int \<Rightarrow> Point list \<Rightarrow> error + int" where
  "rFindClosest hx hy hCenters =
     bindE (foldE (closerStep hx hy hCenters) [0 ..< nat numRegions] (- 1, sint16_max))
       (\<lambda>(rClosest, bestSoFar). Inr rClosest)"

text \<open>
  \<open>hGetCenters\<close>: the sums of the coordinates and the number of hexes of each
  region (\<open>addHex\<close> is the body of the two nested loops over the hexes), then
  the center of each region that has a hex (\<open>setCenter\<close> is the body of the loop
  over the regions).
\<close>

definition addHex ::
  "int list \<Rightarrow> int \<Rightarrow> Point list \<times> int list \<Rightarrow> int \<Rightarrow> error + Point list \<times> int list" where
  "addHex regions hx st hy =
     (case st of (hexSums, numHexes) \<Rightarrow>
        (let region = regions ! nat (hy * hMapWidth + hx) in
         if \<not> (region \<ge> 0 \<and> region < numRegions) then Inl AssertionFailed
         else
           (let hs = hexSums ! nat region in
            Inr (hexSums[nat region := (s16 (fst hs + hx), s16 (snd hs + hy))],
                 numHexes[nat region := numHexes ! nat region + 1]))))"

definition setCenter :: "Point list \<Rightarrow> int list \<Rightarrow> Point list \<Rightarrow> nat \<Rightarrow> Point list" where
  "setCenter hexSums numHexes hCenters r =
     (if numHexes ! r > 0 then
        hCenters[r := (s16 (fst (hexSums ! r) sdiv numHexes ! r),
                       s16 (snd (hexSums ! r) sdiv numHexes ! r))]
      else hCenters)"

definition hGetCenters :: "int list \<Rightarrow> error + Point list" where
  "hGetCenters regions =
     (if length regions \<noteq> nat hMapSize then Inl AssertionFailed
      else
        bindE
          (foldE (\<lambda>st hx. foldE (addHex regions hx) (map int [0 ..< nat hMapHeight]) st)
             (map int [0 ..< nat hMapWidth])
             (replicate (nat numRegions) (0, 0), replicate (nat numRegions) 0))
          (\<lambda>(hexSums, numHexes).
             Inr (foldl (setCenter hexSums numHexes) (replicate (nat numRegions) hInvalid)
                    [0 ..< nat numRegions])))"

text \<open>
  \<open>rGenerate\<close>. The two nested loops that store the closest region of every hex
  occur twice in the source, in the relaxation loop and after it; they are
  \<open>assignHexes\<close> here (\<open>storeClosest\<close> is their body). \<open>relaxPass\<close> is the body
  of the relaxation loop. The random source is the function \<open>rand\<close>: \<open>rand r\<close>
  is the value drawn for the center of region \<open>r\<close>.
\<close>

definition storeClosest :: "Point list \<Rightarrow> int \<Rightarrow> int list \<Rightarrow> int \<Rightarrow> error + int list" where
  "storeClosest hCenters hx regions hy =
     bindE (rFindClosest hx hy hCenters)
       (\<lambda>rClosest.
          if 0 \<le> hy * hMapWidth + hx \<and> nat (hy * hMapWidth + hx) < length regions
          then Inr (regions[nat (hy * hMapWidth + hx) := rClosest])
          else Inl OutOfBounds)"

definition assignHexes :: "Point list \<Rightarrow> int list \<Rightarrow> error + int list" where
  "assignHexes hCenters regions =
     foldE (\<lambda>regs hx. foldE (storeClosest hCenters hx) (map int [0 ..< nat hMapHeight]) regs)
       (map int [0 ..< nat hMapWidth]) regions"

definition relaxPass :: "Point list \<times> int list \<Rightarrow> nat \<Rightarrow> error + Point list \<times> int list" where
  "relaxPass st i =
     (case st of (hCenters, regions) \<Rightarrow>
        bindE (assignHexes hCenters regions)
          (\<lambda>regions'. bindE (hGetCenters regions') (\<lambda>hCenters'. Inr (hCenters', regions'))))"

definition rGenerate :: "(nat \<Rightarrow> int) \<Rightarrow> error + int list" where
  "rGenerate rand =
     bindE
       (foldE relaxPass [0 ..< 4]
          (map (\<lambda>r. hexRandom (rand r)) [0 ..< nat numRegions], replicate (nat hMapSize) 0))
       (\<lambda>(hCenters, regions). assignHexes hCenters regions)"

subsection \<open>Region adjacency\<close>

text \<open>
  \<open>regionNeighbors\<close>: \<open>scanHex\<close> is the body of the loop over the hexes and
  \<open>recordNeighbor\<close> the body of the loop over the neighbours of one hex.
\<close>

definition recordNeighbor ::
  "int list \<Rightarrow> int \<Rightarrow> int list list \<Rightarrow> int \<Rightarrow> error + int list list" where
  "recordNeighbor regions reg ret an =
     (if 0 \<le> an \<and> nat an < length regions then
        (let rNeighbor = regions ! nat an
         in Inr (if rNeighbor \<noteq> reg \<and> rNeighbor \<notin> set (ret ! nat reg)
                 then ret[nat reg := ret ! nat reg @ [rNeighbor]]
                 else ret))
      else Inl OutOfBounds)"

definition scanHex :: "int list \<Rightarrow> int list list \<Rightarrow> nat \<Rightarrow> error + int list list" where
  "scanHex regions ret i =
     (let reg = regions ! i in
      if \<not> (reg \<ge> 0 \<and> reg < numRegions) then Inl AssertionFailed
      else bindE (aryNeighbors (int i)) (\<lambda>av. foldE (recordNeighbor regions reg) av ret))"

definition regionNeighbors :: "int list \<Rightarrow> error + int list list" where
  "regionNeighbors regions =
     (if length regions \<noteq> nat hMapSize then Inl AssertionFailed
      else foldE (scanHex regions) [0 ..< nat hMapSize] (replicate (nat numRegions) []))"

text \<open>
  A total region assignment of the right length, and a vector of region centers
  of which each is a cell or the invalid coordinate and one at least is a cell.
\<close>

definition regionAssignment :: "int list \<Rightarrow> bool" where
  "regionAssignment regions =
     (length regions = nat hMapSize \<and> (\<forall>x \<in> set regions. 0 \<le> x \<and> x < numRegions))"

definition validCenters :: "Point list \<Rightarrow> bool" where
  "validCenters hCenters =
     (length hCenters = nat numRegions \<and>
      (\<forall>c \<in> set hCenters. c = hInvalid \<or> inBounds c) \<and>
      (\<exists>c \<in> set hCenters. inBounds c))"

text \<open>
  The invariant of the loops of \<open>hGetCenters\<close> over the hexes, after \<open>m\<close> hexes:
  the counts are between 0 and \<open>m\<close>, a region with a positive count occurs in
  the region vector, and the sums are bounded by the counts.
\<close>

definition sumsInv :: "int list \<Rightarrow> int \<Rightarrow> Point list \<times> int list \<Rightarrow> bool" where
  "sumsInv regions m st =
     (case st of (hexSums, numHexes) \<Rightarrow>
        length hexSums = 18 \<and> length numHexes = 18 \<and>
        (0 < m \<longrightarrow> (\<exists>r<18. 0 < numHexes ! r)) \<and>
        (\<forall>r<18. 0 \<le> numHexes ! r \<and> numHexes ! r \<le> m \<and>
           (0 < numHexes ! r \<longrightarrow> int r \<in> set regions) \<and>
           0 \<le> fst (hexSums ! r) \<and> fst (hexSums ! r) \<le> 15 * numHexes ! r \<and>
           0 \<le> snd (hexSums ! r) \<and> snd (hexSums ! r) \<le> 8 * numHexes ! r))"

text \<open>The invariant of the loops of \<open>regionNeighbors\<close> on the lists built so far.\<close>

definition adjInv :: "int list list \<Rightarrow> bool" where
  "adjInv ret = (length ret = 18 \<and>
     (\<forall>r<18. int r \<notin> set (ret ! r) \<and> distinct (ret ! r) \<and>
        (\<forall>n \<in> set (ret ! r). 0 \<le> n \<and> n < 18)))"

subsection \<open>Terrain colouring\<close>

text \<open>
  The set of terrains used by the neighbours, \<^verbatim>\<open>std::bitset<numTerrains>\<close>,
  is a list of \<open>numTerrains\<close> flags. \<open>markAssigned\<close> is the body of the loop
  over the neighbours of one region: the assertion on the neighbour's id, then
  the flag of its terrain when it has one.
\<close>

definition markAssigned :: "int list \<Rightarrow> bool list \<Rightarrow> int \<Rightarrow> error + bool list" where
  "markAssigned terrain assignedTerrains rNeighbor =
     (if \<not> (rNeighbor \<ge> 0 \<and> rNeighbor < numRegions) then Inl AssertionFailed
      else if nat rNeighbor < length terrain then
        (if terrain ! nat rNeighbor > - 1 then
           (if terrain ! nat rNeighbor < numTerrains
            then Inr (assignedTerrains[nat (terrain ! nat rNeighbor) := True])
            else Inl OutOfBounds)
         else Inr assignedTerrains)
      else Inl OutOfBounds)"

text \<open>
  The loop \<^verbatim>\<open>for (int t = 0; t < numTerrains; ++t)\<close> with its \<^verbatim>\<open>break\<close>: the
  first terrain whose flag is not set is stored and the loop ends.
\<close>

fun lowestFree :: "bool list \<Rightarrow> nat list \<Rightarrow> int list \<Rightarrow> nat \<Rightarrow> int list" where
  "lowestFree assignedTerrains [] terrain r = terrain"
| "lowestFree assignedTerrains (t # ts) terrain r =
     (if \<not> assignedTerrains ! t then terrain[r := int t]
      else lowestFree assignedTerrains ts terrain r)"

text \<open>The body of the loop over the regions.\<close>

definition assignRegion :: "int list list \<Rightarrow> int list \<Rightarrow> nat \<Rightarrow> error + int list" where
  "assignRegion adj terrain r =
     (if r < length adj then
        bindE (foldE (markAssigned terrain) (adj ! r) (replicate (nat numTerrains) False))
          (\<lambda>assignedTerrains.
             Inr (if \<not> list_all (\<lambda>b. b) assignedTerrains
                  then lowestFree assignedTerrains [0 ..< nat numTerrains] terrain r
                  else terrain[r := 0]))
      else Inl OutOfBounds)"

definition assignTerrain :: "int list list \<Rightarrow> error + int list" where
  "assignTerrain adj =
     foldE (assignRegion adj) [0 ..< nat numRegions] (replicate (nat numRegions) (- 1))"

text \<open>
  The terrain vector at the moment the loop of \<open>assignTerrain\<close> reaches region
  \<open>r\<close>, that is after the regions \<open>0, \<dots>, r - 1\<close>.
\<close>

definition terrainBefore :: "int list list \<Rightarrow> nat \<Rightarrow> error + int list" where
  "terrainBefore adj r =
     foldE (assignRegion adj) [0 ..< r] (replicate (nat numRegions) (- 1))"

text \<open>
  An adjacency list over \<open>numRegions\<close> regions: one list for each region, of
  region ids.
\<close>

definition adjOverRegions :: "int list list \<Rightarrow> bool" where
  "adjOverRegions adj =
     (length adj = nat numRegions \<and>
      (\<forall>ns \<in> set adj. \<forall>n \<in> set ns. 0 \<le> n \<and> n < numRegions))"

text \<open>The cells next to cell \<open>i\<close>, as a set.\<close>

definition nbrs :: "nat \<Rightarrow> int set" where
  "nbrs i = set (projr (aryNeighbors (int i)))"

text \<open>
  An adjacency list as the adjacency builder produces it and the data model
  describes it: an adjacency list over \<open>numRegions\<close> regions in which no region
  lists itself and every region is listed by the regions it lists.
\<close>

definition adjacencyList :: "int list list \<Rightarrow> bool" where
  "adjacencyList adj =
     (adjOverRegions adj \<and>
      (\<forall>r \<in> {0 ..< nat numRegions}.
         int r \<notin> set (adj ! r) \<and> (\<forall>n \<in> set (adj ! r). int r \<in> set (adj ! nat n))))"

text \<open>
  An adjacency list used as a concrete input below: in \<open>adjClique\<close> the regions
  \<open>0, \<dots>, 6\<close> are pairwise adjacent and the other regions have no neighbour.
\<close>

definition adjClique :: "int list list" where
  "adjClique =
     [[1, 2, 3, 4, 5, 6], [0, 2, 3, 4, 5, 6], [0, 1, 3, 4, 5, 6], [0, 1, 2, 4, 5, 6],
      [0, 1, 2, 3, 5, 6], [0, 1, 2, 3, 4, 6], [0, 1, 2, 3, 4, 5],
      [], [], [], [], [], [], [], [], [], [], []]"

section \<open>Properties\<close>

subsection \<open>Arithmetic helpers\<close>

lemma s16_id: "- 32768 \<le> x \<Longrightarrow> x \<le> 32767 \<Longrightarrow> s16 x = x"
  by (simp add: s16_def)

lemma s16_range: "- 32768 \<le> s16 x \<and> s16 x \<le> 32767"
proof -
  have "0 \<le> (x + 32768) mod 65536" "(x + 32768) mod 65536 < 65536"
    by simp_all
  then show ?thesis
    unfolding s16_def by linarith
qed

lemma smod_nonneg: "0 \<le> a \<Longrightarrow> 0 < b \<Longrightarrow> a smod b = a mod (b::int)"
  by (simp add: signed_modulo_int_def sgn_if)

lemma sdiv_nonneg: "0 \<le> a \<Longrightarrow> 0 < b \<Longrightarrow> a sdiv b = a div (b::int)"
  by (simp add: signed_divide_int_def sgn_if)

lemma hexFromAry_cell:
  assumes "0 \<le> i" "i < hMapSize"
  shows "hexFromAry i = (i mod 16, i div 16)"
proof -
  have i: "i < 144"
    using assms by (simp add: hMapSize_def hMapWidth_def hMapHeight_def)
  have m: "0 \<le> i mod 16" "i mod 16 < 16"
    by simp_all
  have d: "0 \<le> i div 16" "i div 16 < 9"
    using assms(1) i by presburger+
  have "s16 (i mod 16) = i mod 16"
    using m by (intro s16_id) linarith+
  moreover have "s16 (i div 16) = i div 16"
    using d by (intro s16_id) linarith+
  ultimately show ?thesis
    using assms(1) by (simp add: hexFromAry_def hMapWidth_def smod_nonneg sdiv_nonneg)
qed

lemma hexFromAry_inBounds:
  assumes "0 \<le> i" "i < hMapSize"
  shows "inBounds (hexFromAry i)"
proof -
  have "i < 144"
    using assms by (simp add: hMapSize_def hMapWidth_def hMapHeight_def)
  then have "0 \<le> i div 16" "i div 16 < 9"
    using assms(1) by presburger+
  then show ?thesis
    by (simp add: hexFromAry_cell [OF assms] inBounds_def hMapWidth_def hMapHeight_def)
qed

lemma aryFromHex_cell:
  assumes "inBounds c"
  shows "0 \<le> aryFromHex c \<and> aryFromHex c < hMapSize"
  using assms
  by (simp add: inBounds_def aryFromHex_def hMapSize_def hMapWidth_def hMapHeight_def)

lemma aryFromHex_hexFromAry:
  assumes "0 \<le> i" "i < hMapSize"
  shows "aryFromHex (hexFromAry i) = i"
  by (simp add: hexFromAry_cell [OF assms] aryFromHex_def hMapWidth_def)

lemma hexFromAry_aryFromHex:
  assumes "inBounds c"
  shows "hexFromAry (aryFromHex c) = c"
proof -
  obtain x y where c: "c = (x, y)"
    by (cases c)
  have b: "0 \<le> x" "x < 16" "0 \<le> y" "y < 9"
    using assms by (simp_all add: c inBounds_def hMapWidth_def hMapHeight_def)
  have r: "0 \<le> aryFromHex c" "aryFromHex c < hMapSize"
    using aryFromHex_cell [OF assms] by simp_all
  have "(y * 16 + x) mod 16 = x" "(y * 16 + x) div 16 = y"
    using b by simp_all
  then show ?thesis
    using hexFromAry_cell [OF r] by (simp add: c aryFromHex_def hMapWidth_def)
qed

subsection \<open>Index and coordinate conversions\<close>

text \<open>
  C6. The conversions between a linear index and a hex coordinate are inverse
  bijections between the indices \<open>0 \<le> i < hMapSize\<close> and the coordinates inside
  the grid: \<open>aryFromHex (hexFromAry i) = i\<close> for every such index and
  \<open>hexFromAry (aryFromHex c) = c\<close> for every coordinate in bounds.
\<close>

theorem index_coord_bijection:
  "(\<forall>i. 0 \<le> i \<and> i < hMapSize \<longrightarrow> inBounds (hexFromAry i) \<and> aryFromHex (hexFromAry i) = i) \<and>
   (\<forall>c. inBounds c \<longrightarrow>
      0 \<le> aryFromHex c \<and> aryFromHex c < hMapSize \<and> hexFromAry (aryFromHex c) = c) \<and>
   bij_betw hexFromAry {0 ..< hMapSize} {c. inBounds c} \<and>
   bij_betw aryFromHex {c. inBounds c} {0 ..< hMapSize}"
proof (intro conjI allI impI)
  show "bij_betw hexFromAry {0 ..< hMapSize} {c. inBounds c}"
    by (rule bij_betw_byWitness [where f' = aryFromHex])
       (auto simp: hexFromAry_inBounds aryFromHex_cell aryFromHex_hexFromAry hexFromAry_aryFromHex)
  show "bij_betw aryFromHex {c. inBounds c} {0 ..< hMapSize}"
    by (rule bij_betw_byWitness [where f' = hexFromAry])
       (auto simp: hexFromAry_inBounds aryFromHex_cell aryFromHex_hexFromAry hexFromAry_aryFromHex)
qed (simp_all add: hexFromAry_inBounds aryFromHex_cell aryFromHex_hexFromAry hexFromAry_aryFromHex)

theorem index_coord_bijection_witness:
  "0 \<le> (37::int) \<and> 37 < hMapSize \<and> inBounds (5, 2) \<and>
   hexFromAry 37 = (5, 2) \<and> aryFromHex (5, 2) = 37 \<and>
   aryFromHex (hexFromAry 37) = 37 \<and> hexFromAry (aryFromHex (5, 2)) = (5, 2)"
proof -
  have a: "0 \<le> (37::int) \<and> 37 < hMapSize"
    by (simp add: hMapSize_def hMapWidth_def hMapHeight_def)
  have b: "inBounds (5, 2)"
    by (simp add: inBounds_def hMapWidth_def hMapHeight_def)
  have c: "aryFromHex (5, 2) = 37"
    by (simp add: aryFromHex_def hMapWidth_def)
  have d: "aryFromHex (hexFromAry 37) = 37"
    using index_coord_bijection a by blast
  have e: "hexFromAry (aryFromHex (5, 2)) = (5, 2)"
    using index_coord_bijection b by blast
  show ?thesis
    using a b c d e by simp
qed

subsection \<open>Hex distance\<close>

text \<open>
  C4. The hex distance is symmetric, \<open>hexDist a b = hexDist b a\<close> for all
  coordinates, and it is the largest \<^verbatim>\<open>Sint16\<close> value whenever one of the two
  arguments is the invalid coordinate; no distance exceeds that value.
\<close>

theorem hexDist_symmetric_sentinel:
  "hexDist a b = hexDist b a \<and>
   hexDist hInvalid b = sint16_max \<and>
   hexDist a hInvalid = sint16_max \<and>
   hexDist a b \<le> sint16_max"
proof (intro conjI)
  have "\<bar>fst a - fst b\<bar> = \<bar>fst b - fst a\<bar>" "\<bar>snd a - snd b\<bar> = \<bar>snd b - snd a\<bar>"
    by simp_all
  then show "hexDist a b = hexDist b a"
    unfolding hexDist_def Let_def by auto
  show "hexDist hInvalid b = sint16_max" "hexDist a hInvalid = sint16_max"
    by (simp_all add: hexDist_def)
  show "hexDist a b \<le> sint16_max"
    using s16_range [of "\<bar>fst a - fst b\<bar>"]
      s16_range [of "s16 \<bar>snd a - snd b\<bar> + 1 + s16 \<bar>fst a - fst b\<bar> sdiv 2"]
      s16_range [of "s16 \<bar>snd a - snd b\<bar> + 0 + s16 \<bar>fst a - fst b\<bar> sdiv 2"]
    unfolding hexDist_def Let_def sint16_max_def by (auto simp: max_def)
qed

theorem hexDist_symmetric_sentinel_witness:
  "hexDist (1, 1) (3, 3) = 3 \<and> hexDist (3, 3) (1, 1) = 3 \<and>
   hexDist hInvalid (3, 3) = 32767 \<and> hexDist (1, 1) hInvalid = 32767"
proof -
  have "hexDist (1, 1) (3, 3) = 3"
    by (simp add: hexDist_def hInvalid_def s16_def signed_modulo_int_def signed_divide_int_def)
  then show ?thesis
    using hexDist_symmetric_sentinel [of "(1, 1)" "(3, 3)"] by (simp add: sint16_max_def)
qed

subsection \<open>Neighbours of a cell\<close>

lemma smod16: "0 \<le> a \<Longrightarrow> a smod 16 = a mod 16"
  and smod2: "0 \<le> a \<Longrightarrow> a smod 2 = a mod (2::int)"
  by (simp_all add: smod_nonneg)

lemmas nb_defs = aryGetNeighbor_def hMapWidth_def hMapHeight_def hMapSize_def smod16 smod2

lemma aryGetNeighbor_N:
  assumes "0 \<le> c" "c < 144"
  shows "aryGetNeighbor c 0 = Inr (if 16 \<le> c then c - 16 else - 1)"
  using assms by (simp add: nb_defs)

lemma aryGetNeighbor_NE:
  assumes "0 \<le> c" "c < 144"
  shows "aryGetNeighbor c 1 =
    Inr (if c mod 16 < 15 then (if c mod 2 = 0 then (if 16 \<le> c then c - 15 else - 1) else c + 1)
         else - 1)"
  using assms by (simp add: nb_defs)

lemma aryGetNeighbor_SE:
  assumes "0 \<le> c" "c < 144"
  shows "aryGetNeighbor c 2 =
    Inr (if c mod 16 < 15 then (if c mod 2 = 0 then c + 1 else (if c < 128 then c + 17 else - 1))
         else - 1)"
  using assms by (simp add: nb_defs)

lemma aryGetNeighbor_S:
  assumes "0 \<le> c" "c < 144"
  shows "aryGetNeighbor c 3 = Inr (if c < 128 then c + 16 else - 1)"
  using assms by (simp add: nb_defs)

lemma aryGetNeighbor_SW:
  assumes "0 \<le> c" "c < 144"
  shows "aryGetNeighbor c 4 =
    Inr (if 0 < c mod 16 then (if c mod 2 = 0 then c - 1 else (if c < 128 then c + 15 else - 1))
         else - 1)"
  using assms by (simp add: nb_defs)

lemma aryGetNeighbor_NW:
  assumes "0 \<le> c" "c < 144"
  shows "aryGetNeighbor c 5 =
    Inr (if 0 < c mod 16 then (if c mod 2 = 0 then (if 16 \<le> c then c - 17 else - 1) else c - 1)
         else - 1)"
  using assms by (simp add: nb_defs)

lemma nb_sym_N:
  assumes c: "0 \<le> c" "c < 144" and n: "aryGetNeighbor c 0 = Inr n" "n \<noteq> - 1"
  shows "aryGetNeighbor n 3 = Inr c \<and> 0 \<le> n \<and> n < 144"
proof -
  have n': "n = c - 16" "16 \<le> c"
    using n by (simp_all add: aryGetNeighbor_N [OF c] split: if_splits)
  then have r: "0 \<le> n" "n < 144" using c by simp_all
  show ?thesis
    unfolding aryGetNeighbor_S [OF r] using n' c r by simp
qed

lemma nb_sym_S:
  assumes c: "0 \<le> c" "c < 144" and n: "aryGetNeighbor c 3 = Inr n" "n \<noteq> - 1"
  shows "aryGetNeighbor n 0 = Inr c \<and> 0 \<le> n \<and> n < 144"
proof -
  have n': "n = c + 16" "c < 128"
    using n by (simp_all add: aryGetNeighbor_S [OF c] split: if_splits)
  then have r: "0 \<le> n" "n < 144" using c by simp_all
  show ?thesis
    unfolding aryGetNeighbor_N [OF r] using n' c r by simp
qed

lemma nb_sym_NE:
  assumes c: "0 \<le> c" "c < 144" and n: "aryGetNeighbor c 1 = Inr n" "n \<noteq> - 1"
  shows "aryGetNeighbor n 4 = Inr c \<and> 0 \<le> n \<and> n < 144"
proof (cases "c mod 2 = 0")
  case True
  then have n': "n = c - 15" "c mod 16 < 15" "16 \<le> c"
    using n by (simp_all add: aryGetNeighbor_NE [OF c] split: if_splits)
  have r: "0 \<le> n" "n < 144" using n' c by simp_all
  have "0 < n mod 16" "n mod 2 \<noteq> 0" "n < 128"
    using n' True c by presburger+
  then show ?thesis
    unfolding aryGetNeighbor_SW [OF r] using n' r by simp
next
  case False
  then have n': "n = c + 1" "c mod 16 < 15"
    using n by (simp_all add: aryGetNeighbor_NE [OF c] split: if_splits)
  have r: "0 \<le> n" "n < 144" using n' c by presburger+
  have "0 < n mod 16" "n mod 2 = 0"
    using n' False c by presburger+
  then show ?thesis
    unfolding aryGetNeighbor_SW [OF r] using n' r by simp
qed

lemma nb_sym_SE:
  assumes c: "0 \<le> c" "c < 144" and n: "aryGetNeighbor c 2 = Inr n" "n \<noteq> - 1"
  shows "aryGetNeighbor n 5 = Inr c \<and> 0 \<le> n \<and> n < 144"
proof (cases "c mod 2 = 0")
  case True
  then have n': "n = c + 1" "c mod 16 < 15"
    using n by (simp_all add: aryGetNeighbor_SE [OF c] split: if_splits)
  have r: "0 \<le> n" "n < 144" using n' c by presburger+
  have "0 < n mod 16" "n mod 2 \<noteq> 0"
    using n' True c by presburger+
  then show ?thesis
    unfolding aryGetNeighbor_NW [OF r] using n' r by simp
next
  case False
  then have n': "n = c + 17" "c mod 16 < 15" "c < 128"
    using n by (simp_all add: aryGetNeighbor_SE [OF c] split: if_splits)
  have r: "0 \<le> n" "n < 144" using n' c by presburger+
  have "0 < n mod 16" "n mod 2 = 0" "16 \<le> n"
    using n' False c by presburger+
  then show ?thesis
    unfolding aryGetNeighbor_NW [OF r] using n' r by simp
qed

lemma nb_sym_SW:
  assumes c: "0 \<le> c" "c < 144" and n: "aryGetNeighbor c 4 = Inr n" "n \<noteq> - 1"
  shows "aryGetNeighbor n 1 = Inr c \<and> 0 \<le> n \<and> n < 144"
proof (cases "c mod 2 = 0")
  case True
  then have n': "n = c - 1" "0 < c mod 16"
    using n by (simp_all add: aryGetNeighbor_SW [OF c] split: if_splits)
  have r: "0 \<le> n" "n < 144" using n' c by presburger+
  have "n mod 16 < 15" "n mod 2 \<noteq> 0"
    using n' True c by presburger+
  then show ?thesis
    unfolding aryGetNeighbor_NE [OF r] using n' r by simp
next
  case False
  then have n': "n = c + 15" "0 < c mod 16" "c < 128"
    using n by (simp_all add: aryGetNeighbor_SW [OF c] split: if_splits)
  have r: "0 \<le> n" "n < 144" using n' c by presburger+
  have "n mod 16 < 15" "n mod 2 = 0" "16 \<le> n"
    using n' False c by presburger+
  then show ?thesis
    unfolding aryGetNeighbor_NE [OF r] using n' r by simp
qed

lemma nb_sym_NW:
  assumes c: "0 \<le> c" "c < 144" and n: "aryGetNeighbor c 5 = Inr n" "n \<noteq> - 1"
  shows "aryGetNeighbor n 2 = Inr c \<and> 0 \<le> n \<and> n < 144"
proof (cases "c mod 2 = 0")
  case True
  then have n': "n = c - 17" "0 < c mod 16" "16 \<le> c"
    using n by (simp_all add: aryGetNeighbor_NW [OF c] split: if_splits)
  have r: "0 \<le> n" "n < 144" using n' c by presburger+
  have "n mod 16 < 15" "n mod 2 \<noteq> 0" "n < 128"
    using n' True c by presburger+
  then show ?thesis
    unfolding aryGetNeighbor_SE [OF r] using n' r by simp
next
  case False
  then have n': "n = c - 1" "0 < c mod 16"
    using n by (simp_all add: aryGetNeighbor_NW [OF c] split: if_splits)
  have r: "0 \<le> n" "n < 144" using n' c by presburger+
  have "n mod 16 < 15" "n mod 2 = 0"
    using n' False c by presburger+
  then show ?thesis
    unfolding aryGetNeighbor_SE [OF r] using n' r by simp
qed


lemma bindE_simps [simp]:
  "bindE (Inr x) f = f x"
  "bindE (Inl e) f = Inl e"
  by (simp_all add: bindE_def)

lemma foldE_append:
  "foldE f (xs @ ys) s = bindE (foldE f xs s) (foldE f ys)"
  by (induction xs arbitrary: s) (auto split: sum.splits)

lemma foldE_collect:
  assumes "\<forall>d \<in> set ds. g d = Inr (h d)"
  shows "foldE (\<lambda>av d. bindE (g d) (\<lambda>x. Inr (if p x then av @ [x] else av))) ds av =
         Inr (av @ filter p (map h ds))"
  using assms by (induction ds arbitrary: av) simp_all

lemma aryGetNeighbor_Inr:
  assumes "0 \<le> d" "d < 6"
  shows "aryGetNeighbor a d = Inr (projr (aryGetNeighbor a d))"
  using assms by (simp add: aryGetNeighbor_def)

lemma aryNeighbors_eq:
  "aryNeighbors a =
     Inr (filter (\<lambda>n. n \<noteq> - 1) (map (\<lambda>d. projr (aryGetNeighbor a d)) (map int [0 ..< 6])))"
proof -
  have "\<forall>d \<in> set (map int [0 ..< 6]). aryGetNeighbor a d = Inr (projr (aryGetNeighbor a d))"
    by (auto intro: aryGetNeighbor_Inr)
  from foldE_collect [OF this, of "\<lambda>n. n \<noteq> - 1" "[]"] show ?thesis
    by (simp add: aryNeighbors_def)
qed

lemma aryNeighbors_mem:
  "aryNeighbors a = Inr ns \<Longrightarrow>
   n \<in> set ns \<longleftrightarrow> n \<noteq> - 1 \<and> (\<exists>d. 0 \<le> d \<and> d < 6 \<and> aryGetNeighbor a d = Inr n)"
proof -
  assume a: "aryNeighbors a = Inr ns"
  have "n \<in> set ns \<longleftrightarrow> n \<noteq> - 1 \<and> (\<exists>k<6. projr (aryGetNeighbor a (int k)) = n)"
    using a unfolding aryNeighbors_eq by (auto simp del: upt_Suc) blast
  also have "(\<exists>k<6. projr (aryGetNeighbor a (int k)) = n) \<longleftrightarrow>
             (\<exists>d. 0 \<le> d \<and> d < 6 \<and> aryGetNeighbor a d = Inr n)"
  proof
    assume "\<exists>k<6. projr (aryGetNeighbor a (int k)) = n"
    then obtain k where k: "k < 6" "projr (aryGetNeighbor a (int k)) = n"
      by blast
    then have "aryGetNeighbor a (int k) = Inr n"
      using aryGetNeighbor_Inr [of "int k" a] by simp
    then show "\<exists>d. 0 \<le> d \<and> d < 6 \<and> aryGetNeighbor a d = Inr n"
      using k(1) by (intro exI [of _ "int k"]) simp
  next
    assume "\<exists>d. 0 \<le> d \<and> d < 6 \<and> aryGetNeighbor a d = Inr n"
    then obtain d where d: "0 \<le> d" "d < 6" "aryGetNeighbor a d = Inr n"
      by blast
    then have "nat d < 6" "projr (aryGetNeighbor a (int (nat d))) = n"
      by simp_all
    then show "\<exists>k<6. projr (aryGetNeighbor a (int k)) = n"
      by blast
  qed
  finally show ?thesis .
qed

lemma nb_sym:
  assumes c: "0 \<le> c" "c < 144" and d: "0 \<le> d" "d < 6"
    and n: "aryGetNeighbor c d = Inr n" "n \<noteq> - 1"
  shows "aryGetNeighbor n ((d + 3) mod 6) = Inr c \<and> 0 \<le> n \<and> n < 144"
proof -
  have "d = 0 \<or> d = 1 \<or> d = 2 \<or> d = 3 \<or> d = 4 \<or> d = 5"
    using d by presburger
  then show ?thesis
    using nb_sym_N [OF c] nb_sym_NE [OF c] nb_sym_SE [OF c]
      nb_sym_S [OF c] nb_sym_SW [OF c] nb_sym_NW [OF c] n
    by (elim disjE) simp_all
qed

text \<open>
  C5. The neighbour relation on cells is symmetric: for a cell \<open>c\<close> of the grid
  and a direction \<open>d\<close> in \<open>0 .. 5\<close>, when \<open>aryGetNeighbor c d\<close> is a cell \<open>n\<close>
  (not \<open>- 1\<close>), the neighbour of \<open>n\<close> in the opposite direction
  \<open>(d + 3) mod 6\<close> is \<open>c\<close>, so \<open>c\<close> is in the list \<open>aryNeighbors n\<close>; and \<open>n\<close>
  is a cell of the grid.
\<close>

theorem neighbor_symmetric:
  assumes "0 \<le> c" "c < hMapSize" "0 \<le> d" "d < 6"
    and "aryGetNeighbor c d = Inr n" "n \<noteq> - 1"
  shows "aryGetNeighbor n ((d + 3) mod 6) = Inr c \<and>
         (\<exists>ns. aryNeighbors n = Inr ns \<and> c \<in> set ns) \<and>
         0 \<le> n \<and> n < hMapSize"
proof -
  have c: "0 \<le> c" "c < 144"
    using assms by (simp_all add: hMapSize_def hMapWidth_def hMapHeight_def)
  have s: "aryGetNeighbor n ((d + 3) mod 6) = Inr c" "0 \<le> n" "n < 144"
    using nb_sym [OF c assms(3-6)] by simp_all
  have "0 \<le> (d + 3) mod 6" "(d + 3) mod 6 < 6"
    by simp_all
  moreover have "c \<noteq> - 1"
    using c by simp
  moreover obtain ns where ns: "aryNeighbors n = Inr ns"
    using aryNeighbors_eq by blast
  ultimately have "c \<in> set ns"
    using s(1) aryNeighbors_mem [OF ns, of c] by blast
  then show ?thesis
    using s ns by (simp add: hMapSize_def hMapWidth_def hMapHeight_def)
qed


theorem neighbor_symmetric_witness:
  "0 \<le> (17::int) \<and> 17 < hMapSize \<and> aryGetNeighbor 17 1 = Inr 18 \<and>
   aryGetNeighbor 18 4 = Inr 17 \<and> (\<exists>ns. aryNeighbors 18 = Inr ns \<and> 17 \<in> set ns)"
proof -
  have a: "0 \<le> (17::int)" "17 < hMapSize"
    by (simp_all add: hMapSize_def hMapWidth_def hMapHeight_def)
  have b: "aryGetNeighbor 17 1 = Inr 18"
    by (simp add: nb_defs)
  show ?thesis
    using neighbor_symmetric [OF a _ _ b] a b by simp
qed

subsection \<open>Diagonal neighbours and column parity\<close>

lemma colOf_cell: "0 \<le> c \<Longrightarrow> c < 144 \<Longrightarrow> colOf c = c mod 16"
  and rowOf_cell: "0 \<le> c \<Longrightarrow> c < 144 \<Longrightarrow> rowOf c = c div 16"
  by (simp_all add: colOf_def rowOf_def hexFromAry_cell hMapSize_def hMapWidth_def hMapHeight_def)

lemma shift16:
  assumes "n - c = 16 * j + k" "0 \<le> c mod 16 + k" "c mod 16 + k < 16"
  shows "n mod 16 = c mod 16 + k \<and> n div 16 = c div 16 + (j::int)"
proof -
  have "n = c + 16 * j + k"
    using assms(1) by simp
  then have e: "n = 16 * (c div 16 + j) + (c mod 16 + k)"
    by (simp add: algebra_simps)
  show ?thesis
    using int_mod_pos_eq [OF e assms(2,3)] int_div_pos_eq [OF e assms(2,3)] by simp
qed

lemma parity16: "even (c mod 16) \<longleftrightarrow> c mod 2 = (0::int)"
  by presburger

lemma diag_NE:
  assumes c: "0 \<le> c" "c < 144" and n: "aryGetNeighbor c 1 = Inr n" "n \<noteq> - 1"
  shows "n mod 16 = c mod 16 + 1 \<and> n div 16 = c div 16 + (if even (c mod 16) then - 1 else 0)"
proof (cases "c mod 2 = 0")
  case True
  then have n': "n = c - 15" "c mod 16 < 15" "16 \<le> c"
    using n by (simp_all add: aryGetNeighbor_NE [OF c] split: if_splits)
  have "n mod 16 = c mod 16 + 1 \<and> n div 16 = c div 16 - 1"
    using shift16 [of n c "- 1" "1"] n' by simp
  then show ?thesis
    using True by (simp add: parity16)
next
  case False
  then have n': "n = c + 1" "c mod 16 < 15"
    using n by (simp_all add: aryGetNeighbor_NE [OF c] split: if_splits)
  have "n mod 16 = c mod 16 + 1 \<and> n div 16 = c div 16"
    using shift16 [of n c "0" "1"] n' by simp
  then show ?thesis
    using False by (simp add: parity16)
qed

lemma diag_SE:
  assumes c: "0 \<le> c" "c < 144" and n: "aryGetNeighbor c 2 = Inr n" "n \<noteq> - 1"
  shows "n mod 16 = c mod 16 + 1 \<and> n div 16 = c div 16 + (if even (c mod 16) then 0 else 1)"
proof (cases "c mod 2 = 0")
  case True
  then have n': "n = c + 1" "c mod 16 < 15"
    using n by (simp_all add: aryGetNeighbor_SE [OF c] split: if_splits)
  have "n mod 16 = c mod 16 + 1 \<and> n div 16 = c div 16"
    using shift16 [of n c "0" "1"] n' by simp
  then show ?thesis
    using True by (simp add: parity16)
next
  case False
  then have n': "n = c + 17" "c mod 16 < 15" "c < 128"
    using n by (simp_all add: aryGetNeighbor_SE [OF c] split: if_splits)
  have "n mod 16 = c mod 16 + 1 \<and> n div 16 = c div 16 + 1"
    using shift16 [of n c "1" "1"] n' by simp
  then show ?thesis
    using False by (simp add: parity16)
qed

lemma diag_SW:
  assumes c: "0 \<le> c" "c < 144" and n: "aryGetNeighbor c 4 = Inr n" "n \<noteq> - 1"
  shows "n mod 16 = c mod 16 - 1 \<and> n div 16 = c div 16 + (if even (c mod 16) then 0 else 1)"
proof (cases "c mod 2 = 0")
  case True
  then have n': "n = c - 1" "0 < c mod 16"
    using n by (simp_all add: aryGetNeighbor_SW [OF c] split: if_splits)
  have "n mod 16 = c mod 16 - 1 \<and> n div 16 = c div 16"
    using shift16 [of n c "0" "- 1"] n' by simp
  then show ?thesis
    using True by (simp add: parity16)
next
  case False
  then have n': "n = c + 15" "0 < c mod 16" "c < 128"
    using n by (simp_all add: aryGetNeighbor_SW [OF c] split: if_splits)
  have "n mod 16 = c mod 16 - 1 \<and> n div 16 = c div 16 + 1"
    using shift16 [of n c "1" "- 1"] n' by simp
  then show ?thesis
    using False by (simp add: parity16)
qed

lemma diag_NW:
  assumes c: "0 \<le> c" "c < 144" and n: "aryGetNeighbor c 5 = Inr n" "n \<noteq> - 1"
  shows "n mod 16 = c mod 16 - 1 \<and> n div 16 = c div 16 + (if even (c mod 16) then - 1 else 0)"
proof (cases "c mod 2 = 0")
  case True
  then have n': "n = c - 17" "0 < c mod 16" "16 \<le> c"
    using n by (simp_all add: aryGetNeighbor_NW [OF c] split: if_splits)
  have "n mod 16 = c mod 16 - 1 \<and> n div 16 = c div 16 - 1"
    using shift16 [of n c "- 1" "- 1"] n' by simp
  then show ?thesis
    using True by (simp add: parity16)
next
  case False
  then have n': "n = c - 1" "0 < c mod 16"
    using n by (simp_all add: aryGetNeighbor_NW [OF c] split: if_splits)
  have "n mod 16 = c mod 16 - 1 \<and> n div 16 = c div 16"
    using shift16 [of n c "0" "- 1"] n' by simp
  then show ?thesis
    using False by (simp add: parity16)
qed

text \<open>
  C9. For a cell \<open>c\<close> of the grid and a diagonal direction (1 = NE, 2 = SE,
  4 = SW, 5 = NW), a neighbour returned by \<open>aryGetNeighbor\<close> lies in the next
  column (to the east for NE and SE, to the west for SW and NW) and its row is
  fixed by the parity of the column of \<open>c\<close>: from an even column NE and NW go
  one row up and SE and SW stay on the row; from an odd column NE and NW stay
  on the row and SE and SW go one row down.
\<close>

theorem diagonal_neighbor_offsets:
  assumes "0 \<le> c" "c < hMapSize" "d = 1 \<or> d = 2 \<or> d = 4 \<or> d = 5"
    and "aryGetNeighbor c d = Inr n" "n \<noteq> - 1"
  shows "0 \<le> n \<and> n < hMapSize \<and>
         colOf n = colOf c + (if d = 1 \<or> d = 2 then 1 else - 1) \<and>
         rowOf n = rowOf c +
           (if even (colOf c) then (if d = 1 \<or> d = 5 then - 1 else 0)
            else (if d = 2 \<or> d = 4 then 1 else 0))"
proof -
  have c: "0 \<le> c" "c < 144"
    using assms by (simp_all add: hMapSize_def hMapWidth_def hMapHeight_def)
  have d: "0 \<le> d" "d < 6"
    using assms(3) by auto
  have r: "0 \<le> n" "n < 144"
    using nb_sym [OF c d assms(4,5)] by simp_all
  have "n mod 16 = c mod 16 + (if d = 1 \<or> d = 2 then 1 else - 1) \<and>
        n div 16 = c div 16 +
           (if even (c mod 16) then (if d = 1 \<or> d = 5 then - 1 else 0)
            else (if d = 2 \<or> d = 4 then 1 else 0))"
    using assms(3) diag_NE [OF c] diag_SE [OF c] diag_SW [OF c] diag_NW [OF c] assms(4,5)
    by (elim disjE) simp_all
  then show ?thesis
    using r by (simp add: colOf_cell [OF c] rowOf_cell [OF c] colOf_cell [OF r] rowOf_cell [OF r]
        hMapSize_def hMapWidth_def hMapHeight_def)
qed

theorem diagonal_neighbor_offsets_witness:
  "0 \<le> (17::int) \<and> 17 < hMapSize \<and> aryGetNeighbor 17 2 = Inr 34 \<and>
   colOf 34 = colOf 17 + 1 \<and> rowOf 34 = rowOf 17 + 1 \<and> odd (colOf 17)"
proof -
  have a: "0 \<le> (17::int)" "17 < hMapSize"
    by (simp_all add: hMapSize_def hMapWidth_def hMapHeight_def)
  have b: "aryGetNeighbor 17 2 = Inr 34"
    by (simp add: nb_defs)
  have c: "odd (colOf 17)"
    by (simp add: colOf_def hexFromAry_cell [OF a])
  show ?thesis
    using diagonal_neighbor_offsets [OF a _ b] a b c by simp
qed

subsection \<open>Greedy terrain colouring\<close>

lemma foldE_single: "foldE f [x] = (\<lambda>s. f s x)"
  by (rule ext) (simp split: sum.splits)

lemma foldE_upt_Suc:
  "foldE f [0 ..< Suc k] s = bindE (foldE f [0 ..< k] s) (\<lambda>s'. f s' k)"
  by (simp add: foldE_append foldE_single)

lemma markAssigned_loop:
  assumes "length terrain = 18" "\<forall>j<18. - 1 \<le> terrain ! j \<and> terrain ! j < 6"
    and "\<forall>n \<in> set ns. 0 \<le> n \<and> n < 18" "length bs = 6"
  shows "\<exists>bs'. foldE (markAssigned terrain) ns bs = Inr bs' \<and> length bs' = 6 \<and>
           (\<forall>t<6. bs' ! t \<longleftrightarrow> bs ! t \<or> (\<exists>n \<in> set ns. terrain ! nat n = int t))"
  using assms(3,4)
proof (induction ns arbitrary: bs)
  case Nil
  then show ?case by simp
next
  case (Cons n ns)
  have n: "0 \<le> n" "n < 18" "nat n < 18"
    using Cons.prems(1) by auto
  have tn: "- 1 \<le> terrain ! nat n" "terrain ! nat n < 6"
    using assms(2) n(3) by blast+
  define bs1 where "bs1 = (if terrain ! nat n > - 1 then bs[nat (terrain ! nat n) := True] else bs)"
  have m: "markAssigned terrain bs n = Inr bs1"
    using n tn assms(1) by (simp add: markAssigned_def numRegions_def numTerrains_def bs1_def)
  have l1: "length bs1 = 6"
    using Cons.prems(2) by (simp add: bs1_def)
  have b1: "\<forall>t<6. bs1 ! t \<longleftrightarrow> bs ! t \<or> terrain ! nat n = int t"
  proof (intro allI impI)
    fix t :: nat assume t: "t < 6"
    show "bs1 ! t \<longleftrightarrow> bs ! t \<or> terrain ! nat n = int t"
    proof (cases "terrain ! nat n > - 1")
      case True
      then have "nat (terrain ! nat n) = t \<longleftrightarrow> terrain ! nat n = int t"
        by auto
      moreover have "nat (terrain ! nat n) < length bs"
        using tn True Cons.prems(2) by simp
      ultimately show ?thesis
        using True by (simp add: bs1_def nth_list_update)
    next
      case False
      then show ?thesis
        by (auto simp: bs1_def)
    qed
  qed
  obtain bs' where bs': "foldE (markAssigned terrain) ns bs1 = Inr bs'" "length bs' = 6"
    "\<forall>t<6. bs' ! t \<longleftrightarrow> bs1 ! t \<or> (\<exists>n \<in> set ns. terrain ! nat n = int t)"
    using Cons.IH [of bs1] Cons.prems(1) l1 by auto
  show ?case
    using m bs' b1 by auto
qed


lemma lowestFree_find:
  "lowestFree bs ts terrain r =
     (case find (\<lambda>t. \<not> bs ! t) ts of None \<Rightarrow> terrain | Some t \<Rightarrow> terrain[r := int t])"
  by (induction ts) simp_all

lemma find_upt_Some:
  "find P [0 ..< n] = Some t \<longleftrightarrow> t < n \<and> P t \<and> (\<forall>j<t. \<not> P j)"
  by (auto simp: find_Some_iff)

lemma find_upt_None: "find P [0 ..< n] = None \<longleftrightarrow> (\<forall>t<n. \<not> P t)"
  by (auto simp: find_None_iff)

lemma adjOverRegions_nth:
  assumes "adjOverRegions adj" "r < 18"
  shows "r < length adj" "\<forall>n \<in> set (adj ! r). 0 \<le> n \<and> n < 18"
  using assms by (auto simp: adjOverRegions_def numRegions_def)

lemma assignRegion_step:
  assumes adj: "adjOverRegions adj" and len: "length terrain = 18"
    and rng: "\<forall>j<18. - 1 \<le> terrain ! j \<and> terrain ! j < 6" and r: "r < 18"
  shows "\<exists>v. assignRegion adj terrain r = Inr (terrain[r := v]) \<and> 0 \<le> v \<and> v < 6 \<and>
           ((\<forall>t<6. \<exists>n \<in> set (adj ! r). terrain ! nat n = int t) \<longrightarrow> v = 0) \<and>
           (\<not> (\<forall>t<6. \<exists>n \<in> set (adj ! r). terrain ! nat n = int t) \<longrightarrow>
              (\<exists>t<6. v = int t \<and> \<not> (\<exists>n \<in> set (adj ! r). terrain ! nat n = int t) \<and>
                 (\<forall>j<t. \<exists>n \<in> set (adj ! r). terrain ! nat n = int j)))"
proof -
  let ?U = "\<lambda>t. \<exists>n \<in> set (adj ! r). terrain ! nat n = int t"
  obtain bs where bs: "foldE (markAssigned terrain) (adj ! r) (replicate 6 False) = Inr bs"
    "length bs = 6" "\<forall>t<6. bs ! t \<longleftrightarrow> ?U t"
    using markAssigned_loop [OF len rng adjOverRegions_nth(2) [OF adj r], of "replicate 6 False"]
    by auto
  have all: "list_all (\<lambda>b. b) bs \<longleftrightarrow> (\<forall>t<6. ?U t)"
    using bs(2,3) by (simp add: list_all_length)
  have eq: "assignRegion adj terrain r =
      Inr (if \<not> (\<forall>t<6. ?U t) then lowestFree bs [0 ..< 6] terrain r else terrain[r := 0])"
    using adjOverRegions_nth(1) [OF adj r] bs(1) all
    by (cases "\<forall>t<6. ?U t") (simp_all add: assignRegion_def numTerrains_def)
  show ?thesis
  proof (cases "\<forall>t<6. ?U t")
    case True
    then show ?thesis
      using eq by (intro exI [of _ 0]) simp
  next
    case False
    then have "\<not> (\<forall>t<6. bs ! t)"
      using bs(3) by blast
    then have "find (\<lambda>t. \<not> bs ! t) [0 ..< 6] \<noteq> None"
      by (simp add: find_upt_None)
    then obtain t where t: "find (\<lambda>t. \<not> bs ! t) [0 ..< 6] = Some t"
      by blast
    then have t': "t < 6" "\<not> bs ! t" "\<forall>j<t. bs ! j"
      by (simp_all add: find_upt_Some)
    have "\<not> ?U t" "\<forall>j<t. ?U j"
      using t' bs(3) by auto
    moreover have "assignRegion adj terrain r = Inr (terrain[r := int t])"
      using eq False t by (simp add: lowestFree_find)
    ultimately show ?thesis
      using False t'(1) by (intro exI [of _ "int t"]) auto
  qed
qed

lemma terrainBefore_Suc:
  "terrainBefore adj (Suc k) = bindE (terrainBefore adj k) (\<lambda>terrain. assignRegion adj terrain k)"
  by (simp only: terrainBefore_def foldE_upt_Suc)

lemma terrainBefore_inv:
  assumes adj: "adjOverRegions adj" and k: "k \<le> 18"
  shows "\<exists>terrain. terrainBefore adj k = Inr terrain \<and> length terrain = 18 \<and>
           (\<forall>j<k. 0 \<le> terrain ! j \<and> terrain ! j < 6) \<and>
           (\<forall>j<18. k \<le> j \<longrightarrow> terrain ! j = - 1)"
  using k
proof (induction k)
  case 0
  then show ?case
    by (simp add: terrainBefore_def numRegions_def)
next
  case (Suc k)
  then obtain T where T: "terrainBefore adj k = Inr T" "length T = 18"
    "\<forall>j<k. 0 \<le> T ! j \<and> T ! j < 6" "\<forall>j<18. k \<le> j \<longrightarrow> T ! j = - 1"
    by auto
  have rng: "\<forall>j<18. - 1 \<le> T ! j \<and> T ! j < 6"
  proof (intro allI impI)
    fix j :: nat assume "j < 18"
    then show "- 1 \<le> T ! j \<and> T ! j < 6"
      using T(3,4) by (cases "j < k") force+
  qed
  have k: "k < 18"
    using Suc.prems by simp
  obtain v where v: "assignRegion adj T k = Inr (T[k := v])" "0 \<le> v" "v < 6"
    using assignRegion_step [OF adj T(2) rng k] by blast
  have "\<forall>j<Suc k. 0 \<le> T[k := v] ! j \<and> T[k := v] ! j < 6"
    using T(2,3) v(2,3) k by (auto simp: nth_list_update less_Suc_eq)
  moreover have "\<forall>j<18. Suc k \<le> j \<longrightarrow> T[k := v] ! j = - 1"
    using T(4) by auto
  ultimately show ?case
    using T(1,2) v(1) by (simp add: terrainBefore_Suc)
qed

lemma terrainBefore_stable:
  assumes adj: "adjOverRegions adj" and "k \<le> m" "m \<le> 18"
    and "terrainBefore adj k = Inr T" "terrainBefore adj m = Inr T'" "j < k"
  shows "T' ! j = T ! j"
  using assms(2,3,5)
proof (induction m arbitrary: T')
  case 0
  then show ?case using assms(6) by simp
next
  case (Suc m)
  show ?case
  proof (cases "k = Suc m")
    case True
    then show ?thesis using Suc.prems assms(4) by simp
  next
    case False
    then have km: "k \<le> m" "m \<le> 18" "m < 18"
      using Suc.prems by simp_all
    obtain T1 where T1: "terrainBefore adj m = Inr T1" "length T1 = 18"
      "\<forall>j<m. 0 \<le> T1 ! j \<and> T1 ! j < 6" "\<forall>j<18. m \<le> j \<longrightarrow> T1 ! j = - 1"
      using terrainBefore_inv [OF adj km(2)] by blast
    have rng: "\<forall>j<18. - 1 \<le> T1 ! j \<and> T1 ! j < 6"
    proof (intro allI impI)
      fix j :: nat assume "j < 18"
      then show "- 1 \<le> T1 ! j \<and> T1 ! j < 6"
        using T1(3,4) by (cases "j < m") force+
    qed
    obtain v where v: "assignRegion adj T1 m = Inr (T1[m := v])"
      using assignRegion_step [OF adj T1(2) rng km(3)] by blast
    have "T' = T1[m := v]"
      using Suc.prems(3) T1(1) v by (simp add: terrainBefore_Suc)
    moreover have "T1 ! j = T ! j"
      using Suc.IH [OF km(1,2) T1(1)] .
    ultimately show ?thesis
      using assms(6) km(1) by simp
  qed
qed


lemma assignTerrain_terrainBefore: "assignTerrain adj = terrainBefore adj 18"
  by (simp add: assignTerrain_def terrainBefore_def numRegions_def)

lemma terrain_rng:
  assumes "\<forall>j<k. 0 \<le> T ! j \<and> T ! j < (6::int)" "\<forall>j<18. k \<le> j \<longrightarrow> T ! j = - 1"
  shows "\<forall>j<18. - 1 \<le> T ! j \<and> T ! j < 6"
proof (intro allI impI)
  fix j :: nat assume "j < 18"
  then show "- 1 \<le> T ! j \<and> T ! j < 6"
    using assms by (cases "j < k") force+
qed

lemma adjClique_ok: "adjOverRegions adjClique"
  by (simp add: adjOverRegions_def adjClique_def numRegions_def)

lemma assignTerrain_adjClique:
  "assignTerrain adjClique = Inr [0, 1, 2, 3, 4, 5, 0, 0, 0, 0, 0, 0, 0, 0, 0, 0, 0, 0]"
  by code_simp

lemma terrainBefore_adjClique:
  "terrainBefore adjClique 6 = Inr [0, 1, 2, 3, 4, 5, - 1, - 1, - 1, - 1, - 1, - 1, - 1, - 1, - 1, - 1, - 1, - 1]"
  by code_simp


lemma assignTerrain_at:
  assumes adj: "adjOverRegions adj" and r: "r < 18"
  shows "\<exists>terrain T. assignTerrain adj = Inr terrain \<and> terrainBefore adj r = Inr T \<and>
           length T = 18 \<and> length terrain = 18 \<and>
           (\<forall>j<18. - 1 < T ! j \<longleftrightarrow> j < r) \<and>
           (\<forall>j<r. T ! j = terrain ! j \<and> 0 \<le> T ! j \<and> T ! j < 6) \<and>
           ((\<forall>t<6. \<exists>n \<in> set (adj ! r). T ! nat n = int t) \<longrightarrow> terrain ! r = 0) \<and>
           (\<not> (\<forall>t<6. \<exists>n \<in> set (adj ! r). T ! nat n = int t) \<longrightarrow>
              (\<exists>t<6. terrain ! r = int t \<and> \<not> (\<exists>n \<in> set (adj ! r). T ! nat n = int t) \<and>
                 (\<forall>j<t. \<exists>n \<in> set (adj ! r). T ! nat n = int j)))"
proof -
  obtain T where T: "terrainBefore adj r = Inr T" "length T = 18"
    "\<forall>j<r. 0 \<le> T ! j \<and> T ! j < 6" "\<forall>j<18. r \<le> j \<longrightarrow> T ! j = - 1"
    using terrainBefore_inv [OF adj, of r] r by auto
  obtain F where F: "terrainBefore adj 18 = Inr F" "length F = 18"
    using terrainBefore_inv [OF adj, of 18] by auto
  have rng: "\<forall>j<18. - 1 \<le> T ! j \<and> T ! j < 6"
    using terrain_rng [OF T(3,4)] .
  obtain v where v: "assignRegion adj T r = Inr (T[r := v])"
    "(\<forall>t<6. \<exists>n \<in> set (adj ! r). T ! nat n = int t) \<longrightarrow> v = 0"
    "\<not> (\<forall>t<6. \<exists>n \<in> set (adj ! r). T ! nat n = int t) \<longrightarrow>
       (\<exists>t<6. v = int t \<and> \<not> (\<exists>n \<in> set (adj ! r). T ! nat n = int t) \<and>
          (\<forall>j<t. \<exists>n \<in> set (adj ! r). T ! nat n = int j))"
    using assignRegion_step [OF adj T(2) rng r] by blast
  have S: "terrainBefore adj (Suc r) = Inr (T[r := v])"
    using T(1) v(1) by (simp add: terrainBefore_Suc)
  have "F ! r = T[r := v] ! r"
    using terrainBefore_stable [OF adj _ _ S F(1), of r] r by simp
  then have Fr: "F ! r = v"
    using T(2) r by simp
  have low: "\<forall>j<r. T ! j = F ! j"
    using terrainBefore_stable [OF adj _ _ T(1) F(1)] r by simp
  have has: "\<forall>j<18. - 1 < T ! j \<longleftrightarrow> j < r"
  proof (intro allI impI)
    fix j :: nat assume "j < 18"
    then show "- 1 < T ! j \<longleftrightarrow> j < r"
      using T(3,4) by (cases "j < r") force+
  qed
  show ?thesis
    using T(1,2,3) F low has v(2,3) Fr
    by (simp add: assignTerrain_terrainBefore)
qed

text \<open>
  C10. For every adjacency list over \<open>numRegions\<close> regions, \<open>assignTerrain\<close>
  returns a terrain vector with one entry for each region, every entry a
  terrain id in \<open>0 \<le> t < numTerrains\<close>; the placeholder \<open>- 1\<close> does not occur
  in it.
\<close>

theorem assignTerrain_total:
  assumes "adjOverRegions adj"
  shows "\<exists>terrain. assignTerrain adj = Inr terrain \<and> length terrain = nat numRegions \<and>
           (\<forall>r < nat numRegions. 0 \<le> terrain ! r \<and> terrain ! r < numTerrains) \<and>
           - 1 \<notin> set terrain"
proof -
  obtain T where T: "terrainBefore adj 18 = Inr T" "length T = 18"
    "\<forall>j<18. 0 \<le> T ! j \<and> T ! j < 6"
    using terrainBefore_inv [OF assms, of 18] by auto
  have "- 1 \<notin> set T"
  proof
    assume "- 1 \<in> set T"
    then obtain j where "j < 18" "T ! j = - 1"
      using T(2) by (auto simp: in_set_conv_nth)
    then show False
      using T(3) by force
  qed
  then show ?thesis
    using T by (simp add: assignTerrain_terrainBefore numRegions_def numTerrains_def)
qed


theorem assignTerrain_total_witness:
  "adjOverRegions adjClique \<and>
   (\<exists>terrain. assignTerrain adjClique = Inr terrain \<and> length terrain = nat numRegions \<and>
      (\<forall>r < nat numRegions. 0 \<le> terrain ! r \<and> terrain ! r < numTerrains) \<and>
      - 1 \<notin> set terrain)"
  using adjClique_ok assignTerrain_total [OF adjClique_ok] by (rule conjI)

text \<open>
  C3, amended. \<open>assignTerrain\<close> handles the regions in ascending order of their
  ids: when the loop reaches region \<open>r\<close>, the regions with a terrain are exactly
  those with an id below \<open>r\<close>, and they keep that terrain to the end. Region \<open>r\<close>
  gets the lowest terrain id that none of its listed neighbours has at that
  moment, when there is such an id below \<open>numTerrains\<close>; when its neighbours use
  all \<open>numTerrains\<close> ids, it gets terrain 0.
\<close>

theorem assignTerrain_lowest_free:
  assumes "adjOverRegions adj"
  shows "\<exists>terrain. assignTerrain adj = Inr terrain \<and>
           (\<forall>r < nat numRegions. \<exists>T. terrainBefore adj r = Inr T \<and>
              (\<forall>j < nat numRegions. - 1 < T ! j \<longleftrightarrow> j < r) \<and>
              (\<forall>j<r. T ! j = terrain ! j) \<and>
              (if \<forall>t < nat numTerrains. \<exists>n \<in> set (adj ! r). T ! nat n = int t
               then terrain ! r = 0
               else \<exists>t < nat numTerrains. terrain ! r = int t \<and>
                      \<not> (\<exists>n \<in> set (adj ! r). T ! nat n = int t) \<and>
                      (\<forall>j<t. \<exists>n \<in> set (adj ! r). T ! nat n = int j)))"
proof -
  obtain F where F: "assignTerrain adj = Inr F"
    using terrainBefore_inv [OF assms, of 18] by (auto simp: assignTerrain_terrainBefore)
  have main: "\<exists>T. terrainBefore adj r = Inr T \<and>
              (\<forall>j < 18. - 1 < T ! j \<longleftrightarrow> j < r) \<and>
              (\<forall>j<r. T ! j = F ! j) \<and>
              (if \<forall>t < 6. \<exists>n \<in> set (adj ! r). T ! nat n = int t
               then F ! r = 0
               else \<exists>t < 6. F ! r = int t \<and>
                      \<not> (\<exists>n \<in> set (adj ! r). T ! nat n = int t) \<and>
                      (\<forall>j<t. \<exists>n \<in> set (adj ! r). T ! nat n = int j))" (is "?P r") if r: "r < 18" for r
  proof -
    obtain terrain T where *: "assignTerrain adj = Inr terrain" "terrainBefore adj r = Inr T"
      "\<forall>j<18. - 1 < T ! j \<longleftrightarrow> j < r"
      "\<forall>j<r. T ! j = terrain ! j \<and> 0 \<le> T ! j \<and> T ! j < 6"
      "(\<forall>t<6. \<exists>n \<in> set (adj ! r). T ! nat n = int t) \<longrightarrow> terrain ! r = 0"
      "\<not> (\<forall>t<6. \<exists>n \<in> set (adj ! r). T ! nat n = int t) \<longrightarrow>
              (\<exists>t<6. terrain ! r = int t \<and> \<not> (\<exists>n \<in> set (adj ! r). T ! nat n = int t) \<and>
                 (\<forall>j<t. \<exists>n \<in> set (adj ! r). T ! nat n = int j))"
      using assignTerrain_at [OF assms r] by blast
    have e: "terrain = F"
      using F *(1) by simp
    have c2: "\<forall>j<r. T ! j = F ! j"
      using *(4) unfolding e by blast
    have c3: "if \<forall>t < 6. \<exists>n \<in> set (adj ! r). T ! nat n = int t
               then F ! r = 0
               else \<exists>t < 6. F ! r = int t \<and>
                      \<not> (\<exists>n \<in> set (adj ! r). T ! nat n = int t) \<and>
                      (\<forall>j<t. \<exists>n \<in> set (adj ! r). T ! nat n = int j)"
    proof (cases "\<forall>t<6. \<exists>n \<in> set (adj ! r). T ! nat n = int t")
      case True
      show ?thesis
        unfolding if_P [OF True] using *(5) True unfolding e by (rule mp)
    next
      case False
      show ?thesis
        unfolding if_not_P [OF False] using *(6) False unfolding e by (rule mp)
    qed
    show ?thesis
      by (intro exI [of _ T] conjI) (rule *(2) *(3) c2 c3)+
  qed
  have n: "nat numRegions = 18" "nat numTerrains = 6"
    by (simp_all add: numRegions_def numTerrains_def)
  show ?thesis
    unfolding n
  proof (rule exI [of _ F], intro conjI allI impI)
    show "assignTerrain adj = Inr F"
      by (rule F)
  next
    fix r :: nat
    assume "r < 18"
    then show "\<exists>T. terrainBefore adj r = Inr T \<and>
              (\<forall>j < 18. - 1 < T ! j \<longleftrightarrow> j < r) \<and>
              (\<forall>j<r. T ! j = F ! j) \<and>
              (if \<forall>t < 6. \<exists>n \<in> set (adj ! r). T ! nat n = int t
               then F ! r = 0
               else \<exists>t < 6. F ! r = int t \<and>
                      \<not> (\<exists>n \<in> set (adj ! r). T ! nat n = int t) \<and>
                      (\<forall>j<t. \<exists>n \<in> set (adj ! r). T ! nat n = int j))"
      by (rule main)
  qed
qed

theorem assignTerrain_lowest_free_witness:
  "adjOverRegions adjClique \<and>
   (\<exists>terrain. assignTerrain adjClique = Inr terrain \<and>
      (\<forall>r < nat numRegions. \<exists>T. terrainBefore adjClique r = Inr T \<and>
         (\<forall>j < nat numRegions. - 1 < T ! j \<longleftrightarrow> j < r) \<and>
         (\<forall>j<r. T ! j = terrain ! j) \<and>
         (if \<forall>t < nat numTerrains. \<exists>n \<in> set (adjClique ! r). T ! nat n = int t
          then terrain ! r = 0
          else \<exists>t < nat numTerrains. terrain ! r = int t \<and>
                 \<not> (\<exists>n \<in> set (adjClique ! r). T ! nat n = int t) \<and>
                 (\<forall>j<t. \<exists>n \<in> set (adjClique ! r). T ! nat n = int j))))"
  using adjClique_ok assignTerrain_lowest_free [OF adjClique_ok] by (rule conjI)

text \<open>
  The claim C3 as it is written fails where the neighbours of a region use all
  terrains: in \<open>adjClique\<close> region 6 lists the regions \<open>0, \<dots>, 5\<close>, which hold
  the terrains \<open>0, \<dots>, 5\<close>, and it gets terrain 0, the terrain of its neighbour 0.
\<close>

theorem assignTerrain_lowest_free_counterexample:
  "adjOverRegions adjClique \<and>
   adjClique ! 6 = [0, 1, 2, 3, 4, 5] \<and>
   terrainBefore adjClique 6 =
     Inr [0, 1, 2, 3, 4, 5, - 1, - 1, - 1, - 1, - 1, - 1, - 1, - 1, - 1, - 1, - 1, - 1] \<and>
   assignTerrain adjClique = Inr [0, 1, 2, 3, 4, 5, 0, 0, 0, 0, 0, 0, 0, 0, 0, 0, 0, 0]"
proof -
  have "adjClique ! 6 = [0, 1, 2, 3, 4, 5]"
    by (simp add: adjClique_def)
  then show ?thesis
    using adjClique_ok terrainBefore_adjClique assignTerrain_adjClique by simp
qed

text \<open>
  The later of two regions differs from an earlier region that it lists, unless
  all terrains were used by its neighbours when it was assigned.
\<close>

lemma assignTerrain_later_lists_earlier:
  assumes "adjOverRegions adj" "r1 < r2" "r2 < nat numRegions" "int r1 \<in> set (adj ! r2)"
  shows "\<exists>terrain T. assignTerrain adj = Inr terrain \<and> terrainBefore adj r2 = Inr T \<and>
           (terrain ! r1 \<noteq> terrain ! r2 \<or>
            ((\<forall>t < nat numTerrains. \<exists>n \<in> set (adj ! r2). T ! nat n = int t) \<and>
             terrain ! r2 = 0))"
proof -
  have r2: "r2 < 18"
    using assms(3) by (simp add: numRegions_def)
  obtain terrain T where *: "assignTerrain adj = Inr terrain" "terrainBefore adj r2 = Inr T"
    "\<forall>j<r2. T ! j = terrain ! j \<and> 0 \<le> T ! j \<and> T ! j < 6"
    "(\<forall>t<6. \<exists>n \<in> set (adj ! r2). T ! nat n = int t) \<longrightarrow> terrain ! r2 = 0"
    "\<not> (\<forall>t<6. \<exists>n \<in> set (adj ! r2). T ! nat n = int t) \<longrightarrow>
            (\<exists>t<6. terrain ! r2 = int t \<and> \<not> (\<exists>n \<in> set (adj ! r2). T ! nat n = int t) \<and>
               (\<forall>j<t. \<exists>n \<in> set (adj ! r2). T ! nat n = int j))"
    using assignTerrain_at [OF assms(1) r2] by blast
  have T1: "T ! nat (int r1) = terrain ! r1"
    using *(3) assms(2) by simp
  show ?thesis
  proof (cases "\<forall>t<6. \<exists>n \<in> set (adj ! r2). T ! nat n = int t")
    case True
    then show ?thesis
      using * by (simp add: numTerrains_def)
  next
    case False
    then obtain t where t: "terrain ! r2 = int t" "\<not> (\<exists>n \<in> set (adj ! r2). T ! nat n = int t)"
      using *(5) by blast
    then have "T ! nat (int r1) \<noteq> int t"
      using assms(4) by blast
    then have "terrain ! r1 \<noteq> terrain ! r2"
      using T1 t(1) by simp
    then show ?thesis
      using *(1,2) by simp
  qed
qed

lemma adjacencyList_pair:
  assumes "adjacencyList adj" "r1 < nat numRegions" "r2 < nat numRegions"
    and "int r2 \<in> set (adj ! r1)"
  shows "adjOverRegions adj" "r1 \<noteq> r2" "int r1 \<in> set (adj ! r2)"
proof -
  have a: "int r1 \<notin> set (adj ! r1)" "\<forall>n \<in> set (adj ! r1). int r1 \<in> set (adj ! nat n)"
    using assms(1,2) by (simp_all add: adjacencyList_def)
  show "adjOverRegions adj"
    using assms(1) by (simp add: adjacencyList_def)
  show "r1 \<noteq> r2"
    using a(1) assms(4) by auto
  have "int r1 \<in> set (adj ! nat (int r2))"
    using a(2) assms(4) by blast
  then show "int r1 \<in> set (adj ! r2)"
    by simp
qed

lemma adjClique_adjacencyList: "adjacencyList adjClique"
  by code_simp

text \<open>
  C2. For every adjacency list (over \<open>numRegions\<close> regions, symmetric and
  without self-loops) and every pair of adjacent regions \<open>r1\<close>, \<open>r2\<close>,
  \<open>assignTerrain\<close> gives the two regions different terrains, unless at the
  moment the later-processed of the two, \<open>max r1 r2\<close>, was assigned every one of
  the \<open>numTerrains\<close> terrain ids was used by one of its neighbours; then that
  region has terrain 0.
\<close>

theorem assignTerrain_coloring:
  assumes "adjacencyList adj" "r1 < nat numRegions" "r2 < nat numRegions"
    and "int r2 \<in> set (adj ! r1)"
  shows "\<exists>terrain T. assignTerrain adj = Inr terrain \<and>
           terrainBefore adj (max r1 r2) = Inr T \<and>
           (terrain ! r1 \<noteq> terrain ! r2 \<or>
            ((\<forall>t < nat numTerrains. \<exists>n \<in> set (adj ! max r1 r2). T ! nat n = int t) \<and>
             terrain ! max r1 r2 = 0))"
proof -
  note p = adjacencyList_pair [OF assms]
  show ?thesis
  proof (cases "r1 < r2")
    case True
    then have m: "max r1 r2 = r2"
      by simp
    show ?thesis
      unfolding m using assignTerrain_later_lists_earlier [OF p(1) True assms(3) p(3)] .
  next
    case False
    then have lt: "r2 < r1"
      using p(2) by simp
    then have m: "max r1 r2 = r1"
      by simp
    obtain terrain T where *: "assignTerrain adj = Inr terrain" "terrainBefore adj r1 = Inr T"
      "terrain ! r2 \<noteq> terrain ! r1 \<or>
       ((\<forall>t < nat numTerrains. \<exists>n \<in> set (adj ! r1). T ! nat n = int t) \<and> terrain ! r1 = 0)"
      using assignTerrain_later_lists_earlier [OF p(1) lt assms(2) assms(4)] by blast
    from *(3) have "terrain ! r1 \<noteq> terrain ! r2 \<or>
       ((\<forall>t < nat numTerrains. \<exists>n \<in> set (adj ! r1). T ! nat n = int t) \<and> terrain ! r1 = 0)"
    proof
      assume "terrain ! r2 \<noteq> terrain ! r1"
      then have "terrain ! r1 \<noteq> terrain ! r2"
        by (rule not_sym)
      then show ?thesis
        by (rule disjI1)
    next
      assume "(\<forall>t < nat numTerrains. \<exists>n \<in> set (adj ! r1). T ! nat n = int t) \<and>
        terrain ! r1 = 0"
      then show ?thesis
        by (rule disjI2)
    qed
    then show ?thesis
      unfolding m using *(1,2) by blast
  qed
qed

text \<open>
  On \<open>adjClique\<close> the adjacent regions 0 and 1 get the different terrains 0 and
  1, and the adjacent regions 0 and 6 both get terrain 0, region 6 by the
  fallback: its neighbours hold all six terrains when it is assigned.
\<close>

theorem assignTerrain_coloring_witness:
  "adjacencyList adjClique \<and>
   int 1 \<in> set (adjClique ! 0) \<and> int 6 \<in> set (adjClique ! 0) \<and>
   assignTerrain adjClique = Inr [0, 1, 2, 3, 4, 5, 0, 0, 0, 0, 0, 0, 0, 0, 0, 0, 0, 0] \<and>
   (\<exists>terrain. assignTerrain adjClique = Inr terrain \<and> terrain ! 0 \<noteq> terrain ! 1) \<and>
   (\<exists>terrain T. assignTerrain adjClique = Inr terrain \<and>
      terrainBefore adjClique (max 0 6) = Inr T \<and>
      (terrain ! 0 \<noteq> terrain ! 6 \<or>
       ((\<forall>t < nat numTerrains. \<exists>n \<in> set (adjClique ! max 0 6). T ! nat n = int t) \<and>
        terrain ! max 0 6 = 0)))"
proof -
  have r: "(0::nat) < nat numRegions" "(1::nat) < nat numRegions" "(6::nat) < nat numRegions"
    by (simp_all add: numRegions_def)
  have a: "int 1 \<in> set (adjClique ! 0)" "int 6 \<in> set (adjClique ! 0)"
    by (simp_all add: adjClique_def)
  have b1: "terrainBefore adjClique 1 =
      Inr [0, - 1, - 1, - 1, - 1, - 1, - 1, - 1, - 1, - 1, - 1, - 1, - 1, - 1, - 1, - 1, - 1, - 1]"
    by code_simp
  obtain terrain T where *: "assignTerrain adjClique = Inr terrain"
    "terrainBefore adjClique (max 0 1) = Inr T"
    "terrain ! 0 \<noteq> terrain ! 1 \<or>
     ((\<forall>t < nat numTerrains. \<exists>n \<in> set (adjClique ! max 0 1). T ! nat n = int t) \<and>
      terrain ! max 0 1 = 0)"
    using assignTerrain_coloring [OF adjClique_adjacencyList r(1) r(2) a(1)] by blast
  have T: "T = [0, - 1, - 1, - 1, - 1, - 1, - 1, - 1, - 1, - 1, - 1, - 1, - 1, - 1, - 1, - 1, - 1, - 1]"
    using *(2) b1 by simp
  have "\<not> (\<forall>t < nat numTerrains. \<exists>n \<in> set (adjClique ! max 0 1). T ! nat n = int t)"
  proof
    assume "\<forall>t < nat numTerrains. \<exists>n \<in> set (adjClique ! max 0 1). T ! nat n = int t"
    then have "1 < nat numTerrains \<longrightarrow>
        (\<exists>n \<in> set (adjClique ! max 0 1). T ! nat n = int 1)"
      by (rule spec)
    then show False
      unfolding T by (simp add: numTerrains_def adjClique_def)
  qed
  then have d: "terrain ! 0 \<noteq> terrain ! 1"
    using *(3) by blast
  have c1: "\<exists>terrain. assignTerrain adjClique = Inr terrain \<and> terrain ! 0 \<noteq> terrain ! 1"
    using *(1) d by blast
  show ?thesis
    using adjClique_adjacencyList a assignTerrain_adjClique c1
      assignTerrain_coloring [OF adjClique_adjacencyList r(1) r(3) a(2)]
    by (intro conjI)
qed

subsection \<open>Region adjacency list\<close>

lemma foldE_invariant:
  assumes "I s" and "\<And>s x. I s \<Longrightarrow> x \<in> set xs \<Longrightarrow> \<exists>s'. f s x = Inr s' \<and> I s'"
  shows "\<exists>s'. foldE f xs s = Inr s' \<and> I s'"
  using assms
proof (induction xs arbitrary: s)
  case Nil
  then show ?case by simp
next
  case (Cons x xs)
  obtain s1 where s1: "f s x = Inr s1" "I s1"
    using Cons.prems(2) [OF Cons.prems(1), of x] by auto
  have "\<exists>s'. foldE f xs s1 = Inr s' \<and> I s'"
    using Cons.IH [OF s1(2)] Cons.prems(2) by simp
  then show ?case
    using s1(1) by simp
qed

lemma consts_nat:
  "nat hMapSize = 144" "nat numRegions = 18" "nat hMapWidth = 16" "nat hMapHeight = 9"
  "nat numTerrains = 6"
  by (simp_all add: hMapSize_def numRegions_def hMapWidth_def hMapHeight_def numTerrains_def)

lemma aryNeighbors_cells:
  assumes "i < 144"
  shows "\<exists>av. aryNeighbors (int i) = Inr av \<and> (\<forall>an \<in> set av. 0 \<le> an \<and> an < 144)"
proof -
  obtain av where av: "aryNeighbors (int i) = Inr av"
    using aryNeighbors_eq by blast
  have "0 \<le> an \<and> an < 144" if an: "an \<in> set av" for an
  proof -
    obtain d where d: "0 \<le> d" "d < 6" "aryGetNeighbor (int i) d = Inr an" "an \<noteq> - 1"
      using aryNeighbors_mem [OF av, of an] an by blast
    show ?thesis
      using nb_sym [OF _ _ d] assms by simp
  qed
  then show ?thesis
    using av by blast
qed

lemma recordNeighbor_inv:
  assumes reg: "length regions = 144" "\<forall>x \<in> set regions. 0 \<le> x \<and> x < 18"
    and r: "0 \<le> reg" "reg < 18" and an: "0 \<le> an" "an < 144" and inv: "adjInv ret"
  shows "\<exists>ret'. recordNeighbor regions reg ret an = Inr ret' \<and> adjInv ret'"
proof -
  define rn where "rn = regions ! nat an"
  have rn: "0 \<le> rn" "rn < 18"
    using reg an by (simp_all add: rn_def)
  have k: "nat reg < 18" "int (nat reg) = reg"
    using r by simp_all
  show ?thesis
  proof (cases "rn \<noteq> reg \<and> rn \<notin> set (ret ! nat reg)")
    case False
    then have "recordNeighbor regions reg ret an = Inr ret"
      using reg(1) an by (auto simp: recordNeighbor_def rn_def Let_def)
    then show ?thesis
      using inv by simp
  next
    case True
    let ?ret = "ret[nat reg := ret ! nat reg @ [rn]]"
    have e: "recordNeighbor regions reg ret an = Inr ?ret"
      using True reg(1) an by (simp add: recordNeighbor_def rn_def Let_def)
    have len: "length ret = 18"
      using inv by (simp add: adjInv_def)
    have "int j \<notin> set (?ret ! j) \<and> distinct (?ret ! j) \<and>
        (\<forall>n \<in> set (?ret ! j). 0 \<le> n \<and> n < 18)" if j: "j < 18" for j
    proof (cases "j = nat reg")
      case eq: True
      have old: "int j \<notin> set (ret ! j)" "distinct (ret ! j)"
        "\<forall>n \<in> set (ret ! j). 0 \<le> n \<and> n < 18"
        using inv j by (auto simp: adjInv_def)
      have "?ret ! j = ret ! j @ [rn]"
        using eq len j by simp
      moreover have "rn \<noteq> int j" "rn \<notin> set (ret ! j)"
        using True eq k by auto
      ultimately show ?thesis
        using old rn by auto
    next
      case False
      then have "?ret ! j = ret ! j"
        by simp
      then show ?thesis
        using inv j by (auto simp: adjInv_def)
    qed
    then have "adjInv ?ret"
      using len by (simp add: adjInv_def)
    then show ?thesis
      using e by simp
  qed
qed

lemma scanHex_inv:
  assumes reg: "length regions = 144" "\<forall>x \<in> set regions. 0 \<le> x \<and> x < 18"
    and i: "i < 144" and inv: "adjInv ret"
  shows "\<exists>ret'. scanHex regions ret i = Inr ret' \<and> adjInv ret'"
proof -
  have r: "0 \<le> regions ! i" "regions ! i < 18"
    using reg i by simp_all
  obtain av where av: "aryNeighbors (int i) = Inr av" "\<forall>an \<in> set av. 0 \<le> an \<and> an < 144"
    using aryNeighbors_cells [OF i] by blast
  have "\<exists>ret'. foldE (recordNeighbor regions (regions ! i)) av ret = Inr ret' \<and> adjInv ret'"
  proof (rule foldE_invariant [where I = adjInv, OF inv])
    fix s an
    assume "adjInv s" "an \<in> set av"
    then show "\<exists>s'. recordNeighbor regions (regions ! i) s an = Inr s' \<and> adjInv s'"
      using recordNeighbor_inv [OF reg r] av(2) by blast
  qed
  then show ?thesis
    using r av(1) by (simp add: scanHex_def numRegions_def)
qed

text \<open>
  C7. For every total region assignment of the right length, \<open>regionNeighbors\<close>
  returns an adjacency list with one list for each region in which no region is
  in its own list and no list has the same region id twice; every entry is a
  region id.
\<close>

theorem regionNeighbors_wellformed:
  assumes "regionAssignment regions"
  shows "\<exists>adj. regionNeighbors regions = Inr adj \<and> length adj = nat numRegions \<and>
           (\<forall>r < nat numRegions. int r \<notin> set (adj ! r) \<and> distinct (adj ! r)) \<and>
           adjOverRegions adj"
proof -
  have reg: "length regions = 144" "\<forall>x \<in> set regions. 0 \<le> x \<and> x < 18"
    using assms by (simp_all add: regionAssignment_def consts_nat numRegions_def)
  have i0: "adjInv (replicate 18 [])"
    by (simp add: adjInv_def)
  have "\<exists>ret'. foldE (scanHex regions) [0 ..< 144] (replicate 18 []) = Inr ret' \<and> adjInv ret'"
  proof (rule foldE_invariant [where I = adjInv, OF i0])
    fix s i
    assume "adjInv s" "i \<in> set [0 ..< 144]"
    then show "\<exists>s'. scanHex regions s i = Inr s' \<and> adjInv s'"
      using scanHex_inv [OF reg] by simp
  qed
  then obtain adj where adj: "regionNeighbors regions = Inr adj" "adjInv adj"
    using reg(1) by (auto simp: regionNeighbors_def consts_nat)
  have len: "length adj = 18"
    using adj(2) by (simp add: adjInv_def)
  have "\<forall>n \<in> set ns. 0 \<le> n \<and> n < 18" if ns: "ns \<in> set adj" for ns
  proof -
    obtain r where r: "r < length adj" "adj ! r = ns"
      using ns by (auto simp: in_set_conv_nth)
    have "\<forall>n \<in> set (adj ! r). 0 \<le> n \<and> n < 18"
      using adj(2) r(1) len unfolding adjInv_def by simp
    then show ?thesis
      using r(2) by simp
  qed
  then have "adjOverRegions adj"
    using len by (simp add: adjOverRegions_def consts_nat numRegions_def)
  then show ?thesis
    using adj by (simp add: adjInv_def consts_nat)
qed

theorem regionNeighbors_wellformed_witness:
  "regionAssignment (map (\<lambda>i. int i mod 18) [0 ..< 144]) \<and>
   (\<exists>adj. regionNeighbors (map (\<lambda>i. int i mod 18) [0 ..< 144]) = Inr adj \<and>
      length adj = nat numRegions \<and>
      (\<forall>r < nat numRegions. int r \<notin> set (adj ! r) \<and> distinct (adj ! r)) \<and>
      adjOverRegions adj)"
proof -
  have a: "regionAssignment (map (\<lambda>i. int i mod 18) [0 ..< 144])"
    by (simp add: regionAssignment_def consts_nat numRegions_def)
  show ?thesis
    using a regionNeighbors_wellformed [OF a] by (rule conjI)
qed

subsection \<open>Closest region center\<close>

lemma inBounds_not_invalid: "inBounds c \<Longrightarrow> c \<noteq> hInvalid"
  by (auto simp: inBounds_def hInvalid_def)

lemma hexDist_inBounds:
  assumes "inBounds a" "inBounds b"
  shows "0 \<le> hexDist a b \<and> hexDist a b < sint16_max"
proof -
  obtain x1 y1 x2 y2 where ab: "a = (x1, y1)" "b = (x2, y2)"
    by (cases a, cases b) auto
  have r: "0 \<le> x1" "x1 < 16" "0 \<le> y1" "y1 < 9" "0 \<le> x2" "x2 < 16" "0 \<le> y2" "y2 < 9"
    using assms by (simp_all add: ab inBounds_def hMapWidth_def hMapHeight_def)
  define dx where "dx = \<bar>x1 - x2\<bar>"
  define dy where "dy = \<bar>y1 - y2\<bar>"
  have d: "0 \<le> dx" "dx \<le> 15" "0 \<le> dy" "dy \<le> 8"
    using r by (simp_all add: dx_def dy_def)
  have sdx: "s16 dx = dx" and sdy: "s16 dy = dy"
    using d by (simp_all add: s16_id)
  have h: "0 \<le> dx sdiv 2" "dx sdiv 2 \<le> 7"
    using d by (simp_all add: sdiv_nonneg)
  have s: "s16 (dy + v + dx sdiv 2) = dy + v + dx sdiv 2" if "v = 0 \<or> v = 1" for v
    using d h that by (intro s16_id) auto
  have ne: "a \<noteq> hInvalid" "b \<noteq> hInvalid"
    using assms by (simp_all add: inBounds_not_invalid)
  show ?thesis
    using ne d h s [of 0] s [of 1]
    by (simp add: hexDist_def Let_def ab sint16_max_def sdx sdy
        dx_def [symmetric] dy_def [symmetric] max_def)
qed

lemma hexDist_invalid: "hexDist p hInvalid = sint16_max"
  by (simp add: hexDist_def)

lemma hexDist_le_max: "hexDist a b \<le> sint16_max"
proof -
  have "s16 x \<le> 32767" for x
    using s16_range [of x] by simp
  then show ?thesis
    unfolding hexDist_def Let_def sint16_max_def by (simp add: max_def)
qed

lemma closerStep_loop:
  assumes "length hCenters = 18" "k \<le> 18"
  shows "\<exists>rc best. foldE (closerStep hx hy hCenters) [0 ..< k] (- 1, sint16_max) = Inr (rc, best) \<and>
           ((rc = - 1 \<and> best = sint16_max \<and>
               (\<forall>i<k. hexDist (hx, hy) (hCenters ! i) = sint16_max)) \<or>
            (0 \<le> rc \<and> rc < int k \<and> best = hexDist (hx, hy) (hCenters ! nat rc) \<and>
               best < sint16_max))"
  using assms(2)
proof (induction k)
  case 0
  then show ?case by simp
next
  case (Suc k)
  then obtain rc best where st:
    "foldE (closerStep hx hy hCenters) [0 ..< k] (- 1, sint16_max) = Inr (rc, best)"
    "(rc = - 1 \<and> best = sint16_max \<and> (\<forall>i<k. hexDist (hx, hy) (hCenters ! i) = sint16_max)) \<or>
     (0 \<le> rc \<and> rc < int k \<and> best = hexDist (hx, hy) (hCenters ! nat rc) \<and> best < sint16_max)"
    by auto
  define dist where "dist = hexDist (hx, hy) (hCenters ! k)"
  have dm: "dist \<le> sint16_max"
    by (simp add: dist_def hexDist_le_max)
  have step: "closerStep hx hy hCenters (rc, best) k =
      Inr (if dist < best then (int k, dist) else (rc, best))"
    using Suc.prems assms(1) by (simp add: closerStep_def dist_def Let_def)
  have S: "foldE (closerStep hx hy hCenters) [0 ..< Suc k] (- 1, sint16_max) =
      Inr (if dist < best then (int k, dist) else (rc, best))"
    using st(1) step by (simp only: foldE_upt_Suc bindE_simps)
  show ?case
  proof (cases "dist < best")
    case True
    have "best \<le> sint16_max"
      using st(2) by auto
    then have "dist < sint16_max"
      using True by simp
    then show ?thesis
      unfolding S using True by (simp add: dist_def)
  next
    case False
    from st(2) show ?thesis
    proof
      assume a: "rc = - 1 \<and> best = sint16_max \<and>
        (\<forall>i<k. hexDist (hx, hy) (hCenters ! i) = sint16_max)"
      then have "dist = sint16_max"
        using False dm by simp
      then have "\<forall>i<Suc k. hexDist (hx, hy) (hCenters ! i) = sint16_max"
        using a by (auto simp: less_Suc_eq dist_def)
      then show ?thesis
        unfolding S using False a by simp
    next
      assume a: "0 \<le> rc \<and> rc < int k \<and> best = hexDist (hx, hy) (hCenters ! nat rc) \<and>
        best < sint16_max"
      then show ?thesis
        unfolding S using False by simp
    qed
  qed
qed

lemma rFindClosest_sound:
  assumes "length hCenters = 18"
  shows "\<exists>r. rFindClosest hx hy hCenters = Inr r \<and>
           ((r = - 1 \<and> (\<forall>i<18. hexDist (hx, hy) (hCenters ! i) = sint16_max)) \<or>
            (0 \<le> r \<and> r < 18 \<and> hexDist (hx, hy) (hCenters ! nat r) < sint16_max))"
proof -
  obtain rc best where
    "foldE (closerStep hx hy hCenters) [0 ..< 18] (- 1, sint16_max) = Inr (rc, best)"
    "(rc = - 1 \<and> best = sint16_max \<and> (\<forall>i<18. hexDist (hx, hy) (hCenters ! i) = sint16_max)) \<or>
     (0 \<le> rc \<and> rc < int 18 \<and> best = hexDist (hx, hy) (hCenters ! nat rc) \<and> best < sint16_max)"
    using closerStep_loop [OF assms, of 18 hx hy] by auto
  then show ?thesis
    by (auto simp: rFindClosest_def consts_nat)
qed

lemma rFindClosest_not_invalid:
  assumes "length hCenters = 18" "rFindClosest hx hy hCenters = Inr r" "r \<noteq> - 1"
  shows "0 \<le> r \<and> r < 18 \<and> hCenters ! nat r \<noteq> hInvalid"
proof -
  have "0 \<le> r \<and> r < 18 \<and> hexDist (hx, hy) (hCenters ! nat r) < sint16_max"
    using rFindClosest_sound [OF assms(1), of hx hy] assms(2,3) by auto
  then show ?thesis
    using hexDist_invalid [of "(hx, hy)"] by auto
qed

lemma rFindClosest_valid:
  assumes "validCenters hCenters" "inBounds (hx, hy)"
  shows "\<exists>r. rFindClosest hx hy hCenters = Inr r \<and> 0 \<le> r \<and> r < 18 \<and>
           hCenters ! nat r \<noteq> hInvalid"
proof -
  have len: "length hCenters = 18"
    using assms(1) by (simp add: validCenters_def consts_nat)
  obtain c where c: "c \<in> set hCenters" "inBounds c"
    using assms(1) by (auto simp: validCenters_def)
  then obtain i where i: "i < 18" "hCenters ! i = c"
    using len by (auto simp: in_set_conv_nth)
  have lt: "hexDist (hx, hy) (hCenters ! i) < sint16_max"
    using hexDist_inBounds [OF assms(2) c(2)] i(2) by simp
  obtain r where r: "rFindClosest hx hy hCenters = Inr r"
    "(r = - 1 \<and> (\<forall>i<18. hexDist (hx, hy) (hCenters ! i) = sint16_max)) \<or>
     (0 \<le> r \<and> r < 18 \<and> hexDist (hx, hy) (hCenters ! nat r) < sint16_max)"
    using rFindClosest_sound [OF len, of hx hy] by blast
  have "r \<noteq> - 1"
    using r(2) lt i(1) by auto
  then show ?thesis
    using r(1) rFindClosest_not_invalid [OF len r(1)] by simp
qed



subsection \<open>One assignment pass\<close>

lemma cell_index:
  assumes "hx \<in> set (map int [0 ..< 16])" "hy \<in> set (map int [0 ..< 9])"
  shows "inBounds (hx, hy)" "0 \<le> hy * hMapWidth + hx" "nat (hy * hMapWidth + hx) < 144"
proof -
  have r: "0 \<le> hx" "hx < 16" "0 \<le> hy" "hy < 9"
    using assms by auto
  then show "inBounds (hx, hy)"
    by (simp add: inBounds_def hMapWidth_def hMapHeight_def)
  show "0 \<le> hy * hMapWidth + hx" "nat (hy * hMapWidth + hx) < 144"
    using r by (simp_all add: hMapWidth_def)
qed

lemma storeClosest_inv:
  assumes hC: "validCenters hCenters"
    and P: "\<forall>r. 0 \<le> r \<and> r < 18 \<and> hCenters ! nat r \<noteq> hInvalid \<longrightarrow> P r"
    and c: "hx \<in> set (map int [0 ..< 16])" "hy \<in> set (map int [0 ..< 9])"
    and inv: "length regs = 144 \<and> (\<forall>x \<in> set regs. P x)"
  shows "\<exists>regs'. storeClosest hCenters hx regs hy = Inr regs' \<and>
           length regs' = 144 \<and> (\<forall>x \<in> set regs'. P x)"
proof -
  obtain r where r: "rFindClosest hx hy hCenters = Inr r" "0 \<le> r" "r < 18"
    "hCenters ! nat r \<noteq> hInvalid"
    using rFindClosest_valid [OF hC cell_index(1) [OF c]] by blast
  let ?regs = "regs[nat (hy * hMapWidth + hx) := r]"
  have e: "storeClosest hCenters hx regs hy = Inr ?regs"
    using r(1) cell_index(2,3) [OF c] inv by (simp add: storeClosest_def)
  have "set ?regs \<subseteq> insert r (set regs)"
    by (rule set_update_subset_insert)
  moreover have "P r"
    using P r(2,3,4) by blast
  ultimately have "\<forall>x \<in> set ?regs. P x"
    using inv by auto
  then show ?thesis
    using e inv by simp
qed

lemma assignHexes_inv:
  assumes hC: "validCenters hCenters"
    and P: "\<forall>r. 0 \<le> r \<and> r < 18 \<and> hCenters ! nat r \<noteq> hInvalid \<longrightarrow> P r"
    and inv: "length regs = 144" "\<forall>x \<in> set regs. P x"
  shows "\<exists>regs'. assignHexes hCenters regs = Inr regs' \<and>
           length regs' = 144 \<and> (\<forall>x \<in> set regs'. P x)"
  unfolding assignHexes_def consts_nat
proof (rule foldE_invariant [where I = "\<lambda>regs. length regs = 144 \<and> (\<forall>x \<in> set regs. P x)"])
  show "length regs = 144 \<and> (\<forall>x \<in> set regs. P x)"
    using inv by simp
next
  fix s hx
  assume s: "length s = 144 \<and> (\<forall>x \<in> set s. P x)" and hx: "hx \<in> set (map int [0 ..< 16])"
  show "\<exists>s'. foldE (storeClosest hCenters hx) (map int [0 ..< 9]) s = Inr s' \<and>
          length s' = 144 \<and> (\<forall>x \<in> set s'. P x)"
  proof (rule foldE_invariant [where I = "\<lambda>regs. length regs = 144 \<and> (\<forall>x \<in> set regs. P x)", OF s])
    fix t hy
    assume "length t = 144 \<and> (\<forall>x \<in> set t. P x)" "hy \<in> set (map int [0 ..< 9])"
    then show "\<exists>s'. storeClosest hCenters hx t hy = Inr s' \<and>
          length s' = 144 \<and> (\<forall>x \<in> set s'. P x)"
      using storeClosest_inv [OF hC P hx] by blast
  qed
qed



subsection \<open>Centers of mass\<close>

lemma foldE_map: "foldE f (map h ys) s = foldE (\<lambda>s y. f s (h y)) ys s"
  by (induction ys arbitrary: s) (simp_all split: sum.splits)

lemma foldE_nested:
  "foldE (\<lambda>s x. foldE (g x) ys s) xs s = foldE (\<lambda>s (x, y). g x s y) (List.product xs ys) s"
proof (induction xs arbitrary: s)
  case Nil
  then show ?case by simp
next
  case (Cons x xs)
  have "foldE (\<lambda>s (x, y). g x s y) (map (Pair x) ys) s = foldE (g x) ys s" for s
    by (simp add: foldE_map)
  then show ?case
    using Cons.IH by (simp add: foldE_append bindE_def split: sum.splits)
qed

lemma addHex_step:
  assumes reg: "length regions = 144" "\<forall>x \<in> set regions. 0 \<le> x \<and> x < 18"
    and c: "0 \<le> hx" "hx < 16" "0 \<le> hy" "hy < 9"
    and inv: "sumsInv regions m st" and m: "0 \<le> m" "m < 144"
  shows "\<exists>st'. addHex regions hx st hy = Inr st' \<and> sumsInv regions (m + 1) st'"
proof -
  obtain S N where st: "st = (S, N)"
    by (cases st)
  have len: "length S = 18" "length N = 18"
    using inv by (simp_all add: sumsInv_def st)
  have old: "0 \<le> N ! r" "N ! r \<le> m" "0 < N ! r \<longrightarrow> int r \<in> set regions"
    "0 \<le> fst (S ! r)" "fst (S ! r) \<le> 15 * N ! r"
    "0 \<le> snd (S ! r)" "snd (S ! r) \<le> 8 * N ! r" if "r < 18" for r
    using inv that by (simp_all add: sumsInv_def st)
  define idx where "idx = nat (hy * hMapWidth + hx)"
  have idx: "idx < 144"
    using c by (simp add: idx_def hMapWidth_def)
  define g where "g = regions ! idx"
  have g: "0 \<le> g" "g < 18" "g \<in> set regions"
    using reg idx by (simp_all add: g_def)
  define k where "k = nat g"
  have k: "k < 18" "int k = g"
    using g by (simp_all add: k_def)
  define S' where "S' = S[k := (s16 (fst (S ! k) + hx), s16 (snd (S ! k) + hy))]"
  define N' where "N' = N[k := N ! k + 1]"
  have e: "addHex regions hx st hy = Inr (S', N')"
    using g by (simp add: addHex_def st Let_def idx_def [symmetric] g_def [symmetric]
        numRegions_def k_def [symmetric] S'_def N'_def)
  have sx: "s16 (fst (S ! k) + hx) = fst (S ! k) + hx"
    using old(2,4,5) [OF k(1)] c m by (intro s16_id) linarith+
  have sy: "s16 (snd (S ! k) + hy) = snd (S ! k) + hy"
    using old(2,6,7) [OF k(1)] c m by (intro s16_id) linarith+
  have Sk: "S' ! k = (fst (S ! k) + hx, snd (S ! k) + hy)"
    using len k(1) by (simp add: S'_def sx sy)
  have Nk: "N' ! k = N ! k + 1"
    using len k(1) by (simp add: N'_def)
  have oth: "S' ! r = S ! r" "N' ! r = N ! r" if "r \<noteq> k" for r
    using that by (simp_all add: S'_def N'_def)
  have new: "0 \<le> N' ! r \<and> N' ! r \<le> m + 1 \<and>
           (0 < N' ! r \<longrightarrow> int r \<in> set regions) \<and>
           0 \<le> fst (S' ! r) \<and> fst (S' ! r) \<le> 15 * N' ! r \<and>
           0 \<le> snd (S' ! r) \<and> snd (S' ! r) \<le> 8 * N' ! r" if r: "r < 18" for r
  proof (cases "r = k")
    case True
    show ?thesis
      using old [OF k(1)] c g(3) k(2) unfolding True Sk Nk by simp
  next
    case False
    show ?thesis
      using old [OF r] unfolding oth [OF False] by simp
  qed
  have "0 < N' ! k"
    using old(1) [OF k(1)] Nk by simp
  then have ex: "\<exists>r<18. 0 < N' ! r"
    using k(1) by blast
  have "sumsInv regions (m + 1) (S', N')"
    using len new ex by (simp add: sumsInv_def S'_def N'_def)
  then show ?thesis
    using e by simp
qed

lemma sums_loop:
  assumes reg: "length regions = 144" "\<forall>x \<in> set regions. 0 \<le> x \<and> x < 18"
  shows "\<forall>(hx, hy) \<in> set cs. 0 \<le> hx \<and> hx < 16 \<and> 0 \<le> hy \<and> hy < 9 \<Longrightarrow>
         sumsInv regions m st \<Longrightarrow> 0 \<le> m \<Longrightarrow> m + int (length cs) \<le> 144 \<Longrightarrow>
         \<exists>st'. foldE (\<lambda>s (x, y). addHex regions x s y) cs st = Inr st' \<and>
               sumsInv regions (m + int (length cs)) st'"
proof (induction cs arbitrary: m st)
  case Nil
  then show ?case by simp
next
  case (Cons c cs)
  obtain hx hy where c: "c = (hx, hy)"
    by (cases c)
  have b: "0 \<le> hx" "hx < 16" "0 \<le> hy" "hy < 9"
    using Cons.prems(1) by (simp_all add: c)
  have m: "m < 144"
    using Cons.prems(4) by simp
  obtain st1 where st1: "addHex regions hx st hy = Inr st1" "sumsInv regions (m + 1) st1"
    using addHex_step [OF reg b Cons.prems(2,3) m] by blast
  have "\<exists>st'. foldE (\<lambda>s (x, y). addHex regions x s y) cs st1 = Inr st' \<and>
               sumsInv regions (m + 1 + int (length cs)) st'"
    using Cons.prems by (intro Cons.IH [OF _ st1(2)]) simp_all
  then show ?case
    using st1(1) by (simp add: c add.assoc)
qed


lemma setCenter_loop:
  assumes "length hC0 = 18" "k \<le> 18"
  shows "length (foldl (setCenter S N) hC0 [0 ..< k]) = 18 \<and>
         (\<forall>r<18. foldl (setCenter S N) hC0 [0 ..< k] ! r =
            (if r < k \<and> 0 < N ! r
             then (s16 (fst (S ! r) sdiv N ! r), s16 (snd (S ! r) sdiv N ! r))
             else hC0 ! r))"
  using assms(2)
proof (induction k)
  case 0
  then show ?case
    using assms(1) by simp
next
  case (Suc k)
  define hC where "hC = foldl (setCenter S N) hC0 [0 ..< k]"
  have ih: "length hC = 18"
    "\<forall>r<18. hC ! r = (if r < k \<and> 0 < N ! r
             then (s16 (fst (S ! r) sdiv N ! r), s16 (snd (S ! r) sdiv N ! r))
             else hC0 ! r)"
    using Suc by (simp_all add: hC_def)
  have e: "foldl (setCenter S N) hC0 [0 ..< Suc k] = setCenter S N hC k"
    by (simp add: hC_def)
  have k: "k < 18"
    using Suc.prems by simp
  have "setCenter S N hC k ! r =
      (if r < Suc k \<and> 0 < N ! r
       then (s16 (fst (S ! r) sdiv N ! r), s16 (snd (S ! r) sdiv N ! r))
       else hC0 ! r)" if r: "r < 18" for r
  proof (cases "r = k")
    case True
    then show ?thesis
      using ih k by (simp add: setCenter_def)
  next
    case False
    then have "setCenter S N hC k ! r = hC ! r"
      by (simp add: setCenter_def)
    then show ?thesis
      using ih(2) r False by (simp add: less_Suc_eq)
  qed
  moreover have "length (setCenter S N hC k) = 18"
    using ih(1) by (simp add: setCenter_def)
  ultimately show ?case
    unfolding e by blast
qed

lemma center_inBounds:
  assumes "0 < n" "0 \<le> a" "a \<le> 15 * n" "0 \<le> b" "b \<le> 8 * n"
  shows "inBounds (s16 (a sdiv n), s16 (b sdiv n))"
proof -
  have a: "0 \<le> a div n" "a div n \<le> 15"
    using assms(1,2,3) zdiv_mono1 [of a "15 * n" n] by (simp_all add: pos_imp_zdiv_nonneg_iff)
  have b: "0 \<le> b div n" "b div n \<le> 8"
    using assms(1,4,5) zdiv_mono1 [of b "8 * n" n] by (simp_all add: pos_imp_zdiv_nonneg_iff)
  have "s16 (a div n) = a div n" "s16 (b div n) = b div n"
    using a b by (simp_all add: s16_id)
  then show ?thesis
    using a b assms(1,2,4)
    by (simp add: inBounds_def hMapWidth_def hMapHeight_def sdiv_nonneg)
qed

lemma product_cells:
  "\<forall>(hx, hy) \<in> set (List.product (map int [0 ..< 16]) (map int [0 ..< 9])).
     0 \<le> hx \<and> hx < 16 \<and> 0 \<le> hy \<and> hy < 9"
  by auto

lemma hGetCenters_valid:
  assumes "regionAssignment regions"
  shows "\<exists>hCenters. hGetCenters regions = Inr hCenters \<and> validCenters hCenters \<and>
           (\<forall>r<18. int r \<notin> set regions \<longrightarrow> hCenters ! r = hInvalid)"
proof -
  have reg: "length regions = 144" "\<forall>x \<in> set regions. 0 \<le> x \<and> x < 18"
    using assms by (simp_all add: regionAssignment_def consts_nat numRegions_def)
  let ?cs = "List.product (map int [0 ..< 16]) (map int [0 ..< 9])"
  have i0: "sumsInv regions 0 (replicate 18 (0, 0), replicate 18 0)"
    by (simp add: sumsInv_def)
  have lc: "int (length ?cs) = 144"
    by simp
  obtain st where st: "foldE (\<lambda>s (x, y). addHex regions x s y) ?cs
      (replicate 18 (0, 0), replicate 18 0) = Inr st" "sumsInv regions 144 st"
    using sums_loop [OF reg product_cells i0] unfolding lc by auto
  obtain S N where SN: "st = (S, N)"
    by (cases st)
  have inv: "\<exists>r<18. 0 < N ! r"
    "\<And>r. r < 18 \<Longrightarrow> 0 < N ! r \<Longrightarrow> int r \<in> set regions"
    "\<And>r. r < 18 \<Longrightarrow> 0 \<le> fst (S ! r) \<and> fst (S ! r) \<le> 15 * N ! r \<and>
           0 \<le> snd (S ! r) \<and> snd (S ! r) \<le> 8 * N ! r"
    using st(2) by (simp_all add: sumsInv_def SN)
  define hC where "hC = foldl (setCenter S N) (replicate 18 hInvalid) [0 ..< 18]"
  have hC: "length hC = 18"
    "\<And>r. r < 18 \<Longrightarrow> hC ! r = (if 0 < N ! r
             then (s16 (fst (S ! r) sdiv N ! r), s16 (snd (S ! r) sdiv N ! r))
             else hInvalid)"
    using setCenter_loop [of "replicate 18 hInvalid" 18 S N] by (simp_all add: hC_def)
  have e: "hGetCenters regions = Inr hC"
    using reg(1) st(1)
    by (simp add: hGetCenters_def consts_nat foldE_nested SN hC_def)
  have each: "hC ! r = hInvalid \<or> inBounds (hC ! r)" if r: "r < 18" for r
  proof (cases "0 < N ! r")
    case True
    then show ?thesis
      using hC(2) [OF r] inv(3) [OF r] by (simp add: center_inBounds)
  next
    case False
    then show ?thesis
      using hC(2) [OF r] by simp
  qed
  obtain r0 where r0: "r0 < 18" "0 < N ! r0"
    using inv(1) by blast
  have "inBounds (hC ! r0)"
    using hC(2) [OF r0(1)] r0(2) inv(3) [OF r0(1)] by (simp add: center_inBounds)
  then have ex: "\<exists>c \<in> set hC. inBounds c"
    using r0(1) hC(1) by (metis nth_mem)
  have all: "\<forall>c \<in> set hC. c = hInvalid \<or> inBounds c"
  proof
    fix c assume "c \<in> set hC"
    then obtain i where "i < 18" "hC ! i = c"
      using hC(1) by (auto simp: in_set_conv_nth)
    then show "c = hInvalid \<or> inBounds c"
      using each [of i] by simp
  qed
  have "validCenters hC"
    using hC(1) all ex by (simp add: validCenters_def consts_nat)
  moreover have "\<forall>r<18. int r \<notin> set regions \<longrightarrow> hC ! r = hInvalid"
    using hC(2) inv(2) by auto
  ultimately show ?thesis
    using e by blast
qed



subsection \<open>Relaxation passes\<close>

lemma regionAssignment_iff:
  "regionAssignment regions \<longleftrightarrow> length regions = 144 \<and> (\<forall>x \<in> set regions. 0 \<le> x \<and> x < 18)"
  by (simp add: regionAssignment_def consts_nat numRegions_def)

lemma assignHexes_keeps_empty:
  assumes hC: "validCenters hCenters" and reg: "regionAssignment regions"
  shows "\<exists>regs'. assignHexes hCenters regions = Inr regs' \<and> regionAssignment regs' \<and>
           (\<forall>r<18. hCenters ! r = hInvalid \<and> int r \<notin> set regions \<longrightarrow> int r \<notin> set regs')"
proof -
  define P where "P = (\<lambda>x. 0 \<le> x \<and> x < 18 \<and> (x \<in> set regions \<or> hCenters ! nat x \<noteq> hInvalid))"
  have a: "\<forall>r. 0 \<le> r \<and> r < 18 \<and> hCenters ! nat r \<noteq> hInvalid \<longrightarrow> P r"
    by (simp add: P_def)
  have b: "length regions = 144" "\<forall>x \<in> set regions. P x"
    using reg by (simp_all add: regionAssignment_iff P_def)
  obtain regs' where r: "assignHexes hCenters regions = Inr regs'" "length regs' = 144"
    "\<forall>x \<in> set regs'. P x"
    using assignHexes_inv [OF hC a b] by blast
  have "regionAssignment regs'"
    using r(2,3) by (simp add: regionAssignment_iff P_def)
  moreover have "\<forall>r<18. hCenters ! r = hInvalid \<and> int r \<notin> set regions \<longrightarrow> int r \<notin> set regs'"
    using r(3) by (auto simp: P_def)
  ultimately show ?thesis
    using r(1) by blast
qed

lemma relaxPass_inv:
  assumes hC: "validCenters hCenters" and reg: "regionAssignment regions"
  shows "\<exists>hC' regs'. relaxPass (hCenters, regions) i = Inr (hC', regs') \<and>
           validCenters hC' \<and> regionAssignment regs' \<and>
           (\<forall>r<18. hCenters ! r = hInvalid \<and> int r \<notin> set regions \<longrightarrow>
                     hC' ! r = hInvalid \<and> int r \<notin> set regs')"
proof -
  obtain regs' where r: "assignHexes hCenters regions = Inr regs'" "regionAssignment regs'"
    "\<forall>r<18. hCenters ! r = hInvalid \<and> int r \<notin> set regions \<longrightarrow> int r \<notin> set regs'"
    using assignHexes_keeps_empty [OF hC reg] by blast
  obtain hC' where c: "hGetCenters regs' = Inr hC'" "validCenters hC'"
    "\<forall>r<18. int r \<notin> set regs' \<longrightarrow> hC' ! r = hInvalid"
    using hGetCenters_valid [OF r(2)] by blast
  have "relaxPass (hCenters, regions) i = Inr (hC', regs')"
    using r(1) c(1) by (simp add: relaxPass_def)
  then show ?thesis
    using r(2,3) c(2,3) by blast
qed

lemma relaxPasses_inv:
  assumes hC: "validCenters hCenters" and reg: "regionAssignment regions"
  shows "\<exists>hC' regs'. foldE relaxPass is (hCenters, regions) = Inr (hC', regs') \<and>
           validCenters hC' \<and> regionAssignment regs' \<and>
           (\<forall>r<18. hCenters ! r = hInvalid \<and> int r \<notin> set regions \<longrightarrow>
                     hC' ! r = hInvalid \<and> int r \<notin> set regs')"
proof -
  define I where "I = (\<lambda>st. validCenters (fst st) \<and> regionAssignment (snd st) \<and>
      (\<forall>r<18. hCenters ! r = hInvalid \<and> int r \<notin> set regions \<longrightarrow>
                fst st ! r = hInvalid \<and> int r \<notin> set (snd st)))"
  have i0: "I (hCenters, regions)"
    using hC reg by (simp add: I_def)
  have "\<exists>s'. foldE relaxPass is (hCenters, regions) = Inr s' \<and> I s'"
  proof (rule foldE_invariant [where I = I, OF i0])
    fix s :: "Point list \<times> int list" and i :: nat
    assume s: "I s"
    obtain hC1 regs1 where s1: "s = (hC1, regs1)"
      by (cases s)
    obtain hC' regs' where p: "relaxPass (hC1, regs1) i = Inr (hC', regs')"
      "validCenters hC'" "regionAssignment regs'"
      "\<forall>r<18. hC1 ! r = hInvalid \<and> int r \<notin> set regs1 \<longrightarrow>
                     hC' ! r = hInvalid \<and> int r \<notin> set regs'"
      using relaxPass_inv [of hC1 regs1 i] s by (auto simp: I_def s1)
    have "I (hC', regs')"
      using p(2,3,4) s by (simp add: I_def s1)
    then show "\<exists>s'. relaxPass s i = Inr s' \<and> I s'"
      using p(1) s1 by blast
  qed
  then show ?thesis
    by (auto simp: I_def)
qed

lemma initial_centers:
  assumes "\<forall>r < nat numRegions. 0 \<le> rand r \<and> rand r < hMapSize"
  shows "validCenters (map (\<lambda>r. hexRandom (rand r)) [0 ..< nat numRegions])"
proof -
  have "inBounds (hexRandom (rand r))" if "r < 18" for r
    using assms that by (simp add: hexRandom_def hexFromAry_inBounds consts_nat)
  then have a: "\<forall>c \<in> set (map (\<lambda>r. hexRandom (rand r)) [0 ..< 18]). inBounds c"
    by auto
  have "hexRandom (rand 0) \<in> set (map (\<lambda>r. hexRandom (rand r)) [0 ..< 18])"
    by (simp add: image_iff) (rule bexI [of _ 0], simp_all)
  then have "\<exists>c \<in> set (map (\<lambda>r. hexRandom (rand r)) [0 ..< 18]). inBounds c"
    using a by blast
  moreover have "length (map (\<lambda>r. hexRandom (rand r)) [0 ..< 18]) = 18"
    by simp
  ultimately show ?thesis
    using a unfolding validCenters_def consts_nat by blast
qed

lemma initial_regions: "regionAssignment (replicate (nat hMapSize) 0)"
  by (simp add: regionAssignment_def numRegions_def)


lemma store_loop:
  assumes hC: "validCenters hCenters"
  shows "\<forall>(hx, hy) \<in> set cs. 0 \<le> hx \<and> hx < 16 \<and> 0 \<le> hy \<and> hy < 9 \<Longrightarrow>
         distinct (map (\<lambda>(x, y). nat (y * hMapWidth + x)) cs) \<Longrightarrow> length regs = 144 \<Longrightarrow>
         \<exists>regs'. foldE (\<lambda>s (x, y). storeClosest hCenters x s y) cs regs = Inr regs' \<and>
           length regs' = 144 \<and>
           (\<forall>(x, y) \<in> set cs. rFindClosest x y hCenters = Inr (regs' ! nat (y * hMapWidth + x))) \<and>
           (\<forall>j. j \<notin> (\<lambda>(x, y). nat (y * hMapWidth + x)) ` set cs \<longrightarrow> regs' ! j = regs ! j)"
proof (induction cs arbitrary: regs)
  case Nil
  then show ?case by simp
next
  case (Cons c cs)
  obtain hx hy where c: "c = (hx, hy)"
    by (cases c)
  let ?idx = "\<lambda>(x, y). nat (y * hMapWidth + x)"
  have b: "0 \<le> hx" "hx < 16" "0 \<le> hy" "hy < 9"
    using Cons.prems(1) by (simp_all add: c)
  have ib: "inBounds (hx, hy)" and ix: "0 \<le> hy * hMapWidth + hx" "nat (hy * hMapWidth + hx) < 144"
    using b by (simp_all add: inBounds_def hMapWidth_def hMapHeight_def)
  obtain r where r: "rFindClosest hx hy hCenters = Inr r"
    using rFindClosest_valid [OF hC ib] by blast
  define regs1 where "regs1 = regs[nat (hy * hMapWidth + hx) := r]"
  have e: "storeClosest hCenters hx regs hy = Inr regs1"
    using r ix Cons.prems(3) by (simp add: storeClosest_def regs1_def)
  have l1: "length regs1 = 144"
    using Cons.prems(3) by (simp add: regs1_def)
  have d: "distinct (map ?idx cs)" "?idx c \<notin> ?idx ` set cs"
    using Cons.prems(2) by simp_all
  have cs: "\<forall>(hx, hy) \<in> set cs. 0 \<le> hx \<and> hx < 16 \<and> 0 \<le> hy \<and> hy < 9"
    using Cons.prems(1) by simp
  obtain regs' where regs': "foldE (\<lambda>s (x, y). storeClosest hCenters x s y) cs regs1 = Inr regs'"
    "length regs' = 144"
    "\<forall>(x, y) \<in> set cs. rFindClosest x y hCenters = Inr (regs' ! nat (y * hMapWidth + x))"
    "\<forall>j. j \<notin> ?idx ` set cs \<longrightarrow> regs' ! j = regs1 ! j"
    using Cons.IH [OF cs d(1) l1] by blast
  have "regs' ! ?idx c = regs1 ! ?idx c"
    using regs'(4) d(2) by blast
  then have here: "regs' ! nat (hy * hMapWidth + hx) = r"
    using ix(2) Cons.prems(3) by (simp add: c regs1_def)
  have rest: "regs' ! j = regs ! j" if "j \<notin> ?idx ` set (c # cs)" for j
  proof -
    have "j \<noteq> nat (hy * hMapWidth + hx)" "j \<notin> ?idx ` set cs"
      using that by (auto simp: c)
    then show ?thesis
      using regs'(4) by (simp add: regs1_def)
  qed
  have "foldE (\<lambda>s (x, y). storeClosest hCenters x s y) (c # cs) regs = Inr regs'"
    using e regs'(1) by (simp add: c)
  moreover have "\<forall>(x, y) \<in> set (c # cs).
      rFindClosest x y hCenters = Inr (regs' ! nat (y * hMapWidth + x))"
    using regs'(3) r here by (simp add: c)
  ultimately show ?case
    using regs'(2) rest by blast
qed

lemma cell_index_inj:
  assumes "nat (int ya * 16 + int xa) = nat (int yb * 16 + int xb)" "xa < 16" "xb < 16"
  shows "xa = xb \<and> ya = yb"
proof -
  have "ya * 16 + xa = yb * 16 + xb"
    using assms(1) by linarith
  then show ?thesis
    using assms(2,3) by presburger
qed

lemma cells_distinct:
  "distinct (map (\<lambda>(x, y). nat (y * hMapWidth + x))
     (List.product (map int [0 ..< 16]) (map int [0 ..< 9])))"
proof -
  have "inj_on (\<lambda>(x, y). nat (y * hMapWidth + x))
      (set (List.product (map int [0 ..< 16]) (map int [0 ..< 9])))"
    by (rule inj_onI) (auto simp: hMapWidth_def dest: cell_index_inj)
  moreover have "distinct (List.product (map int [0 ..< 16]) (map int [0 ..< 9]))"
    by (intro distinct_product) (simp_all add: distinct_map)
  ultimately show ?thesis
    by (simp add: distinct_map)
qed

lemma assignHexes_closest:
  assumes hC: "validCenters hCenters" and len: "length regs = 144"
  shows "\<exists>regs'. assignHexes hCenters regs = Inr regs' \<and> length regs' = 144 \<and>
           (\<forall>hx hy. inBounds (hx, hy) \<longrightarrow>
              rFindClosest hx hy hCenters = Inr (regs' ! nat (aryFromHex (hx, hy))))"
proof -
  let ?cs = "List.product (map int [0 ..< 16]) (map int [0 ..< 9])"
  obtain regs' where r: "foldE (\<lambda>s (x, y). storeClosest hCenters x s y) ?cs regs = Inr regs'"
    "length regs' = 144"
    "\<forall>(x, y) \<in> set ?cs. rFindClosest x y hCenters = Inr (regs' ! nat (y * hMapWidth + x))"
    using store_loop [OF hC product_cells cells_distinct len] by blast
  have e: "assignHexes hCenters regs = Inr regs'"
    using r(1) by (simp add: assignHexes_def consts_nat foldE_nested)
  have "rFindClosest hx hy hCenters = Inr (regs' ! nat (aryFromHex (hx, hy)))"
    if ib: "inBounds (hx, hy)" for hx hy
  proof -
    have b: "0 \<le> hx" "hx < 16" "0 \<le> hy" "hy < 9"
      using ib by (simp_all add: inBounds_def hMapWidth_def hMapHeight_def)
    have "hx \<in> int ` {0 ..< 16}" "hy \<in> int ` {0 ..< 9}"
      using b by (auto simp: image_iff intro: bexI [of _ "nat hx"] bexI [of _ "nat hy"])
    then have "(hx, hy) \<in> set ?cs"
      by simp
    then show ?thesis
      using r(3) by (auto simp: aryFromHex_def)
  qed
  then show ?thesis
    using e r(2) by blast
qed


text \<open>
  C1. For every sequence of random draws for the initial centers (each draw a
  cell index, as \<^verbatim>\<open>hexRandom\<close> draws it), \<open>rGenerate\<close> returns a region vector
  with one entry for every cell index below \<open>hMapSize\<close>, each entry a region id
  in \<open>0 \<le> r < numRegions\<close>, and the entry of a cell is what \<open>rFindClosest\<close>
  returns for it on the last centers. After each number \<open>k \<le> 4\<close> of relaxation
  passes the region vector is a total assignment, one center at least is a
  cell, and on these centers \<open>rFindClosest\<close> returns a region id, never
  \<open>- 1\<close>, for every cell.
\<close>

theorem rGenerate_total:
  assumes "\<forall>r < nat numRegions. 0 \<le> rand r \<and> rand r < hMapSize"
  shows "\<exists>regions. rGenerate rand = Inr regions \<and> length regions = nat hMapSize \<and>
           (\<forall>i < nat hMapSize. 0 \<le> regions ! i \<and> regions ! i < numRegions) \<and>
           (\<exists>hCenters. validCenters hCenters \<and>
              (\<forall>hx hy. inBounds (hx, hy) \<longrightarrow>
                 rFindClosest hx hy hCenters = Inr (regions ! nat (aryFromHex (hx, hy))))) \<and>
           (\<forall>k \<le> 4. \<exists>hCenters regs.
              foldE relaxPass [0 ..< k]
                (map (\<lambda>r. hexRandom (rand r)) [0 ..< nat numRegions],
                 replicate (nat hMapSize) 0) = Inr (hCenters, regs) \<and>
              validCenters hCenters \<and>
              regionAssignment regs \<and>
              (\<forall>hx hy. inBounds (hx, hy) \<longrightarrow>
                 (\<exists>r. rFindClosest hx hy hCenters = Inr r \<and> 0 \<le> r \<and> r < numRegions)))"
proof -
  let ?init = "(map (\<lambda>r. hexRandom (rand r)) [0 ..< nat numRegions], replicate (nat hMapSize) 0)"
  have passes: "\<exists>hC regs. foldE relaxPass is ?init = Inr (hC, regs) \<and>
      validCenters hC \<and> regionAssignment regs" for "is"
    using relaxPasses_inv [OF initial_centers [OF assms] initial_regions, of "is"] by blast
  obtain hC regs where p: "foldE relaxPass [0 ..< 4] ?init = Inr (hC, regs)"
    "validCenters hC" "regionAssignment regs"
    using passes [of "[0 ..< 4]"] by blast
  obtain regions where f: "assignHexes hC regs = Inr regions" "regionAssignment regions"
    using assignHexes_keeps_empty [OF p(2,3)] by blast
  have cl: "\<forall>hx hy. inBounds (hx, hy) \<longrightarrow>
      rFindClosest hx hy hC = Inr (regions ! nat (aryFromHex (hx, hy)))"
    using assignHexes_closest [OF p(2), of regs] p(3) f(1) by (auto simp: regionAssignment_iff)
  have e: "rGenerate rand = Inr regions"
    using p(1) f(1) by (simp add: rGenerate_def)
  have rng: "\<forall>i < nat hMapSize. 0 \<le> regions ! i \<and> regions ! i < numRegions"
    using f(2) by (simp add: regionAssignment_def)
  have every: "\<exists>hCenters regs. foldE relaxPass [0 ..< k] ?init = Inr (hCenters, regs) \<and>
      validCenters hCenters \<and>
      regionAssignment regs \<and>
      (\<forall>hx hy. inBounds (hx, hy) \<longrightarrow>
         (\<exists>r. rFindClosest hx hy hCenters = Inr r \<and> 0 \<le> r \<and> r < numRegions))" for k
  proof -
    obtain hC1 regs1 where q: "foldE relaxPass [0 ..< k] ?init = Inr (hC1, regs1)"
      "validCenters hC1" "regionAssignment regs1"
      using passes [of "[0 ..< k]"] by blast
    have "\<exists>r. rFindClosest hx hy hC1 = Inr r \<and> 0 \<le> r \<and> r < numRegions"
      if "inBounds (hx, hy)" for hx hy
      using rFindClosest_valid [OF q(2) that] by (auto simp: numRegions_def)
    then show ?thesis
      using q by blast
  qed
  show ?thesis
  proof (intro exI [of _ regions] conjI)
    show "rGenerate rand = Inr regions"
      by (rule e)
    show "length regions = nat hMapSize"
      using f(2) by (simp add: regionAssignment_def)
    show "\<forall>i < nat hMapSize. 0 \<le> regions ! i \<and> regions ! i < numRegions"
      by (rule rng)
    show "\<exists>hCenters. validCenters hCenters \<and>
              (\<forall>hx hy. inBounds (hx, hy) \<longrightarrow>
                 rFindClosest hx hy hCenters = Inr (regions ! nat (aryFromHex (hx, hy))))"
      using p(2) cl by blast
    show "\<forall>k \<le> 4. \<exists>hCenters regs.
              foldE relaxPass [0 ..< k] ?init = Inr (hCenters, regs) \<and>
              validCenters hCenters \<and>
              regionAssignment regs \<and>
              (\<forall>hx hy. inBounds (hx, hy) \<longrightarrow>
                 (\<exists>r. rFindClosest hx hy hCenters = Inr r \<and> 0 \<le> r \<and> r < numRegions))"
      using every by blast
  qed
qed


theorem rGenerate_total_witness:
  "\<exists>regions. rGenerate (\<lambda>r. int r * 8) = Inr regions \<and> length regions = nat hMapSize \<and>
     (\<forall>i < nat hMapSize. 0 \<le> regions ! i \<and> regions ! i < numRegions) \<and>
     (\<exists>hCenters. validCenters hCenters \<and>
        (\<forall>hx hy. inBounds (hx, hy) \<longrightarrow>
           rFindClosest hx hy hCenters = Inr (regions ! nat (aryFromHex (hx, hy))))) \<and>
     (\<forall>k \<le> 4. \<exists>hCenters regs.
        foldE relaxPass [0 ..< k]
          (map (\<lambda>r. hexRandom (int r * 8)) [0 ..< nat numRegions],
           replicate (nat hMapSize) 0) = Inr (hCenters, regs) \<and>
        validCenters hCenters \<and>
        regionAssignment regs \<and>
        (\<forall>hx hy. inBounds (hx, hy) \<longrightarrow>
           (\<exists>r. rFindClosest hx hy hCenters = Inr r \<and> 0 \<le> r \<and> r < numRegions)))"
proof -
  have "\<forall>r < nat numRegions. 0 \<le> int r * 8 \<and> int r * 8 < hMapSize"
    by (simp add: consts_nat hMapSize_def hMapWidth_def hMapHeight_def)
  then show ?thesis
    by (rule rGenerate_total)
qed

text \<open>
  C8. When a region owns no cell of a region assignment, its center computed by
  \<open>hGetCenters\<close> is the invalid coordinate, and this stays so through every
  number of further relaxation passes: after them the region still owns no cell
  and its center is invalid, the distance of every hex to that center is the
  largest \<^verbatim>\<open>Sint16\<close>, \<open>rFindClosest\<close> returns the region for no hex, and the
  next assignment of the hexes gives it no cell.
\<close>

theorem empty_region_stays_empty:
  assumes "regionAssignment regions" "r < nat numRegions" "int r \<notin> set regions"
  shows "\<exists>hCenters. hGetCenters regions = Inr hCenters \<and> hCenters ! r = hInvalid \<and>
           (\<forall>k. \<exists>hC' regs'.
              foldE relaxPass [0 ..< k] (hCenters, regions) = Inr (hC', regs') \<and>
              int r \<notin> set regs' \<and> hC' ! r = hInvalid \<and>
              (\<forall>hx hy. hexDist (hx, hy) (hC' ! r) = sint16_max \<and>
                        rFindClosest hx hy hC' \<noteq> Inr (int r)) \<and>
              (\<exists>regs''. assignHexes hC' regs' = Inr regs'' \<and> int r \<notin> set regs''))"
proof -
  have r: "r < 18"
    using assms(2) by (simp add: consts_nat)
  obtain hC where c: "hGetCenters regions = Inr hC" "validCenters hC" "hC ! r = hInvalid"
    using hGetCenters_valid [OF assms(1)] assms(3) r by blast
  have "\<exists>hC' regs'.
          foldE relaxPass [0 ..< k] (hC, regions) = Inr (hC', regs') \<and>
          int r \<notin> set regs' \<and> hC' ! r = hInvalid \<and>
          (\<forall>hx hy. hexDist (hx, hy) (hC' ! r) = sint16_max \<and>
                    rFindClosest hx hy hC' \<noteq> Inr (int r)) \<and>
          (\<exists>regs''. assignHexes hC' regs' = Inr regs'' \<and> int r \<notin> set regs'')" for k
  proof -
    obtain hC' regs' where p: "foldE relaxPass [0 ..< k] (hC, regions) = Inr (hC', regs')"
      "validCenters hC'" "regionAssignment regs'" "hC' ! r = hInvalid" "int r \<notin> set regs'"
      using relaxPasses_inv [OF c(2) assms(1), of "[0 ..< k]"] c(3) assms(3) r by blast
    have len: "length hC' = 18"
      using p(2) by (simp add: validCenters_def consts_nat)
    have never: "rFindClosest hx hy hC' \<noteq> Inr (int r)" for hx hy
    proof
      assume "rFindClosest hx hy hC' = Inr (int r)"
      then have "hC' ! nat (int r) \<noteq> hInvalid"
        using rFindClosest_not_invalid [OF len, of hx hy "int r"] by simp
      then show False
        using p(4) by simp
    qed
    obtain regs'' where f: "assignHexes hC' regs' = Inr regs''" "int r \<notin> set regs''"
      using assignHexes_keeps_empty [OF p(2,3)] p(4,5) r by blast
    show ?thesis
      using p(1,4,5) never f by (auto simp: hexDist_invalid)
  qed
  then show ?thesis
    using c(1,3) by blast
qed

theorem empty_region_stays_empty_witness:
  "regionAssignment (map (\<lambda>i. int i mod 17) [0 ..< 144]) \<and> (17::nat) < nat numRegions \<and>
   int 17 \<notin> set (map (\<lambda>i. int i mod 17) [0 ..< 144]) \<and>
   (\<exists>hCenters. hGetCenters (map (\<lambda>i. int i mod 17) [0 ..< 144]) = Inr hCenters \<and>
      hCenters ! 17 = hInvalid \<and>
      (\<forall>k. \<exists>hC' regs'.
         foldE relaxPass [0 ..< k] (hCenters, map (\<lambda>i. int i mod 17) [0 ..< 144]) =
           Inr (hC', regs') \<and>
         int 17 \<notin> set regs' \<and> hC' ! 17 = hInvalid \<and>
         (\<forall>hx hy. hexDist (hx, hy) (hC' ! 17) = sint16_max \<and>
                   rFindClosest hx hy hC' \<noteq> Inr (int 17)) \<and>
         (\<exists>regs''. assignHexes hC' regs' = Inr regs'' \<and> int 17 \<notin> set regs'')))"
proof -
  have "0 \<le> int i mod 17 \<and> int i mod 17 < 18" for i :: nat
    using pos_mod_bound [of 17 "int i"] by simp
  then have a: "regionAssignment (map (\<lambda>i. int i mod 17) [0 ..< 144])"
    by (simp add: regionAssignment_def consts_nat numRegions_def)
  have b: "(17::nat) < nat numRegions"
    by (simp add: consts_nat)
  have "int i mod 17 \<noteq> 17" for i :: nat
    using pos_mod_bound [of 17 "int i"] by simp
  then have c: "int 17 \<notin> set (map (\<lambda>i. int i mod 17) [0 ..< 144])"
    by auto
  show ?thesis
    using a b c empty_region_stays_empty [OF a b c] by blast
qed

subsection \<open>The adjacency list built from a region assignment\<close>

text \<open>
  \<open>regionNeighbors\<close>, whose result is what \<open>assignTerrain\<close> is called with,
  lists for region \<open>a\<close> exactly the regions other than \<open>a\<close> of the cells next
  to a cell of \<open>a\<close>. As the neighbour relation on cells is symmetric, its
  result is symmetric and has no self-loop.
\<close>

lemma recordNeighbor_loop:
  assumes reg: "length regions = 144" and r: "0 \<le> reg" "reg < 18"
  shows "\<forall>an \<in> set av. 0 \<le> an \<and> an < 144 \<Longrightarrow> length ret = 18 \<Longrightarrow>
         \<exists>ret'. foldE (recordNeighbor regions reg) av ret = Inr ret' \<and> length ret' = 18 \<and>
           set (ret' ! nat reg) =
             set (ret ! nat reg) \<union> {regions ! nat an |an. an \<in> set av \<and> regions ! nat an \<noteq> reg} \<and>
           (\<forall>a. a \<noteq> nat reg \<longrightarrow> ret' ! a = ret ! a)"
proof (induction av arbitrary: ret)
  case Nil
  then show ?case by simp
next
  case (Cons an av)
  have an: "0 \<le> an" "an < 144"
    using Cons.prems(1) by simp_all
  have k: "nat reg < 18"
    using r by simp
  define ret1 where "ret1 =
     (if regions ! nat an \<noteq> reg \<and> regions ! nat an \<notin> set (ret ! nat reg)
      then ret[nat reg := ret ! nat reg @ [regions ! nat an]] else ret)"
  have e: "recordNeighbor regions reg ret an = Inr ret1"
    using reg an by (simp add: recordNeighbor_def Let_def ret1_def)
  have l1: "length ret1 = 18"
    using Cons.prems(2) by (simp add: ret1_def)
  have s1: "set (ret1 ! nat reg) =
      set (ret ! nat reg) \<union> (if regions ! nat an \<noteq> reg then {regions ! nat an} else {})"
    using Cons.prems(2) k by (auto simp: ret1_def)
  have o1: "\<forall>a. a \<noteq> nat reg \<longrightarrow> ret1 ! a = ret ! a"
    by (simp add: ret1_def)
  obtain ret' where ret': "foldE (recordNeighbor regions reg) av ret1 = Inr ret'"
    "length ret' = 18"
    "set (ret' ! nat reg) =
       set (ret1 ! nat reg) \<union> {regions ! nat an |an. an \<in> set av \<and> regions ! nat an \<noteq> reg}"
    "\<forall>a. a \<noteq> nat reg \<longrightarrow> ret' ! a = ret1 ! a"
    using Cons.IH [of ret1] Cons.prems(1) l1 by auto
  have "set (ret' ! nat reg) =
      set (ret ! nat reg) \<union>
        {regions ! nat x |x. x \<in> set (an # av) \<and> regions ! nat x \<noteq> reg}"
    unfolding ret'(3) s1 by auto
  then show ?case
    using e ret'(1,2,4) o1 by simp
qed

lemma scanHex_sets:
  assumes reg: "length regions = 144" "\<forall>x \<in> set regions. 0 \<le> x \<and> x < 18"
    and i: "i < 144" and len: "length ret = 18"
  shows "\<exists>ret'. scanHex regions ret i = Inr ret' \<and> length ret' = 18 \<and>
           (\<forall>a<18. set (ret' ! a) = set (ret ! a) \<union>
              {regions ! nat an |an. regions ! i = int a \<and> an \<in> nbrs i \<and>
                 regions ! nat an \<noteq> int a})"
proof -
  have r: "0 \<le> regions ! i" "regions ! i < 18"
    using reg i by simp_all
  obtain av where av: "aryNeighbors (int i) = Inr av" "\<forall>an \<in> set av. 0 \<le> an \<and> an < 144"
    using aryNeighbors_cells [OF i] by blast
  have nb: "nbrs i = set av"
    by (simp add: nbrs_def av(1))
  obtain ret' where ret': "foldE (recordNeighbor regions (regions ! i)) av ret = Inr ret'"
    "length ret' = 18"
    "set (ret' ! nat (regions ! i)) = set (ret ! nat (regions ! i)) \<union>
       {regions ! nat an |an. an \<in> set av \<and> regions ! nat an \<noteq> regions ! i}"
    "\<forall>a. a \<noteq> nat (regions ! i) \<longrightarrow> ret' ! a = ret ! a"
    using recordNeighbor_loop [OF reg(1) r av(2) len] by blast
  have e: "scanHex regions ret i = Inr ret'"
    using r av(1) ret'(1) by (simp add: scanHex_def numRegions_def)
  have "set (ret' ! a) = set (ret ! a) \<union>
      {regions ! nat an |an. regions ! i = int a \<and> an \<in> nbrs i \<and> regions ! nat an \<noteq> int a}"
    if a: "a < 18" for a
  proof (cases "a = nat (regions ! i)")
    case True
    then have "regions ! i = int a"
      using r by simp
    then show ?thesis
      using ret'(3) True by (simp add: nb)
  next
    case False
    then have "regions ! i \<noteq> int a"
      by auto
    then show ?thesis
      using ret'(4) False by simp
  qed
  then show ?thesis
    using e ret'(2) by blast
qed

lemma regionNeighbors_loop:
  assumes reg: "length regions = 144" "\<forall>x \<in> set regions. 0 \<le> x \<and> x < 18"
    and k: "k \<le> 144"
  shows "\<exists>ret. foldE (scanHex regions) [0 ..< k] (replicate 18 []) = Inr ret \<and> length ret = 18 \<and>
           (\<forall>a<18. set (ret ! a) =
              {regions ! nat an |i an. i < k \<and> regions ! i = int a \<and> an \<in> nbrs i \<and>
                 regions ! nat an \<noteq> int a})"
  using k
proof (induction k)
  case 0
  then show ?case by simp
next
  case (Suc k)
  then obtain ret where ret: "foldE (scanHex regions) [0 ..< k] (replicate 18 []) = Inr ret"
    "length ret = 18"
    "\<forall>a<18. set (ret ! a) =
       {regions ! nat an |i an. i < k \<and> regions ! i = int a \<and> an \<in> nbrs i \<and>
          regions ! nat an \<noteq> int a}"
    by auto
  have k: "k < 144"
    using Suc.prems by simp
  obtain ret' where ret': "scanHex regions ret k = Inr ret'" "length ret' = 18"
    "\<forall>a<18. set (ret' ! a) = set (ret ! a) \<union>
        {regions ! nat an |an. regions ! k = int a \<and> an \<in> nbrs k \<and> regions ! nat an \<noteq> int a}"
    using scanHex_sets [OF reg k ret(2)] by blast
  have S: "foldE (scanHex regions) [0 ..< Suc k] (replicate 18 []) = Inr ret'"
    using ret(1) ret'(1) by (simp only: foldE_upt_Suc bindE_simps)
  have "set (ret' ! a) =
      {regions ! nat an |i an. i < Suc k \<and> regions ! i = int a \<and> an \<in> nbrs i \<and>
         regions ! nat an \<noteq> int a}" if a: "a < 18" for a
  proof -
    have "set (ret' ! a) =
        {regions ! nat an |i an. i < k \<and> regions ! i = int a \<and> an \<in> nbrs i \<and>
           regions ! nat an \<noteq> int a} \<union>
        {regions ! nat an |an. regions ! k = int a \<and> an \<in> nbrs k \<and> regions ! nat an \<noteq> int a}"
      using ret'(3) ret(3) a by simp
    also have "\<dots> = {regions ! nat an |i an. i < Suc k \<and> regions ! i = int a \<and> an \<in> nbrs i \<and>
         regions ! nat an \<noteq> int a}"
      by (auto simp: less_Suc_eq)
    finally show ?thesis .
  qed
  then show ?case
    unfolding S using ret'(2) by blast
qed

lemma nbrs_symmetric:
  assumes "i < 144" "an \<in> nbrs i"
  shows "0 \<le> an \<and> an < 144 \<and> int i \<in> nbrs (nat an)"
proof -
  obtain av where av: "aryNeighbors (int i) = Inr av"
    using aryNeighbors_eq by blast
  have "an \<in> set av"
    using assms(2) by (simp add: nbrs_def av)
  then obtain d where d: "0 \<le> d" "d < 6" "aryGetNeighbor (int i) d = Inr an" "an \<noteq> - 1"
    using aryNeighbors_mem [OF av, of an] by blast
  have s: "aryGetNeighbor an ((d + 3) mod 6) = Inr (int i)" "0 \<le> an" "an < 144"
    using nb_sym [OF _ _ d] assms(1) by simp_all
  obtain bv where bv: "aryNeighbors an = Inr bv"
    using aryNeighbors_eq by blast
  have "0 \<le> (d + 3) mod 6" "(d + 3) mod 6 < 6"
    by simp_all
  then have "int i \<in> set bv"
    using aryNeighbors_mem [OF bv, of "int i"] s(1) by auto
  then have "int i \<in> nbrs (nat an)"
    using s(2) by (simp add: nbrs_def bv)
  then show ?thesis
    using s(2,3) by simp
qed

lemma regionNeighbors_adjacencyList:
  assumes "regionAssignment regions"
  shows "\<exists>adj. regionNeighbors regions = Inr adj \<and> adjacencyList adj"
proof -
  have reg: "length regions = 144" "\<forall>x \<in> set regions. 0 \<le> x \<and> x < 18"
    using assms by (simp_all add: regionAssignment_iff)
  obtain adj where adj: "foldE (scanHex regions) [0 ..< 144] (replicate 18 []) = Inr adj"
    "length adj = 18"
    "\<forall>a<18. set (adj ! a) =
       {regions ! nat an |i an. i < 144 \<and> regions ! i = int a \<and> an \<in> nbrs i \<and>
          regions ! nat an \<noteq> int a}"
    using regionNeighbors_loop [OF reg, of 144] by auto
  have e: "regionNeighbors regions = Inr adj"
    using reg(1) adj(1) by (simp add: regionNeighbors_def consts_nat)
  have mem: "b \<in> set (adj ! a) \<longleftrightarrow>
      (\<exists>i an. i < 144 \<and> regions ! i = int a \<and> an \<in> nbrs i \<and> regions ! nat an = b \<and> b \<noteq> int a)"
    if "a < 18" for a b
    using adj(3) that by auto
  have rng: "0 \<le> b \<and> b < 18" if a: "a < 18" and b: "b \<in> set (adj ! a)" for a b
  proof -
    obtain i an where *: "i < 144" "an \<in> nbrs i" "regions ! nat an = b"
      using mem [OF a, of b] b by blast
    have "nat an < 144"
      using nbrs_symmetric [OF *(1,2)] by linarith
    then have "regions ! nat an \<in> set regions"
      using reg(1) by simp
    then show ?thesis
      using reg(2) *(3) by blast
  qed
  have "\<forall>n \<in> set ns. 0 \<le> n \<and> n < 18" if ns: "ns \<in> set adj" for ns
  proof -
    obtain a where a: "a < 18" "adj ! a = ns"
      using ns adj(2) by (auto simp: in_set_conv_nth)
    show ?thesis
      using rng [OF a(1)] a(2) by blast
  qed
  then have over: "adjOverRegions adj"
    using adj(2) by (simp add: adjOverRegions_def consts_nat numRegions_def)
  have sym: "int a \<notin> set (adj ! a) \<and> (\<forall>n \<in> set (adj ! a). int a \<in> set (adj ! nat n))"
    if a: "a < 18" for a
  proof (intro conjI ballI)
    show "int a \<notin> set (adj ! a)"
      using mem [OF a, of "int a"] by blast
  next
    fix b
    assume b: "b \<in> set (adj ! a)"
    obtain i an where *: "i < 144" "regions ! i = int a" "an \<in> nbrs i" "regions ! nat an = b"
      "b \<noteq> int a"
      using mem [OF a, of b] b by blast
    have s: "0 \<le> an" "nat an < 144"
      using nbrs_symmetric [OF *(1,3)] by linarith+
    have s3: "int i \<in> nbrs (nat an)"
      using nbrs_symmetric [OF *(1,3)] by blast
    have br: "0 \<le> b" "nat b < 18" "int (nat b) = b"
      using rng [OF a b] by linarith+
    have "\<exists>j bn. j < 144 \<and> regions ! j = int (nat b) \<and> bn \<in> nbrs j \<and>
        regions ! nat bn = int a \<and> int a \<noteq> int (nat b)"
      using s(2) s3 *(2,4,5) br(3)
      by (intro exI [of _ "nat an"] exI [of _ "int i"]) auto
    then show "int a \<in> set (adj ! nat b)"
      using mem [OF br(2), of "int a"] by blast
  qed
  have "adjacencyList adj"
    using over sym by (simp add: adjacencyList_def consts_nat)
  then show ?thesis
    using e by blast
qed

end
